theory Spec2Isabelle
  imports Complex_Main "HOL-Library.Product_Lexorder"
begin

section \<open>Python values and strings\<close>

text \<open>
  The two processors of the entity-resolution subsystem (\<^verbatim>\<open>data_cleaner.py\<close> and
  \<^verbatim>\<open>player_mapper.py\<close>) work on cells of pandas tables. A cell is a string, an
  integer, \<^verbatim>\<open>None\<close> or the float \<^verbatim>\<open>nan\<close>. Strings are lists of code points
  below 256 (Latin-1): \<^typ>\<open>char\<close> is read as the code point with that number.
\<close>

datatype pyval = PStr string | PInt int | PNone | PNaN

text \<open>The exceptions that reach the caller of the matcher.\<close>

datatype py_error = ValueError | KeyError | AttributeError

text \<open>\<^verbatim>\<open>str.lower()\<close>: the cased code points below 256 whose lower-case form differs are
  A-Z, 192-214 and 216-222; the lower-case form is 32 higher, that is, bit 5 set.\<close>

definition is_upper :: "char \<Rightarrow> bool" where
  "is_upper c =
     (let n = (of_char c :: nat)
      in (65 \<le> n \<and> n \<le> 90) \<or> (192 \<le> n \<and> n \<le> 214) \<or> (216 \<le> n \<and> n \<le> 222))"

fun set_bit5 :: "char \<Rightarrow> char" where
  "set_bit5 (Char b0 b1 b2 b3 b4 b5 b6 b7) = Char b0 b1 b2 b3 b4 True b6 b7"

definition py_lower_char :: "char \<Rightarrow> char" where
  "py_lower_char c = (if is_upper c then set_bit5 c else c)"

definition py_lower :: "string \<Rightarrow> string" where
  "py_lower s = map py_lower_char s"

text \<open>\<^verbatim>\<open>str.strip()\<close> removes leading and trailing white space: the code points
  9-13, 28-32, 133 and 160.\<close>

definition is_space :: "char \<Rightarrow> bool" where
  "is_space c =
     (let n = (of_char c :: nat)
      in (9 \<le> n \<and> n \<le> 13) \<or> (28 \<le> n \<and> n \<le> 32) \<or> n = 133 \<or> n = 160)"

definition py_strip :: "string \<Rightarrow> string" where
  "py_strip s = rev (dropWhile is_space (rev (dropWhile is_space s)))"

text \<open>\<^verbatim>\<open>str(x)\<close>: a string is itself, an integer is its decimal numeral, \<^verbatim>\<open>None\<close> is
  \<^verbatim>\<open>'None'\<close> and the float nan is \<^verbatim>\<open>'nan'\<close>.\<close>

definition digit_char :: "nat \<Rightarrow> char" where
  "digit_char d =
     (if d = 0 then CHR ''0'' else if d = 1 then CHR ''1'' else if d = 2 then CHR ''2''
      else if d = 3 then CHR ''3'' else if d = 4 then CHR ''4'' else if d = 5 then CHR ''5''
      else if d = 6 then CHR ''6'' else if d = 7 then CHR ''7'' else if d = 8 then CHR ''8''
      else CHR ''9'')"

function str_nat :: "nat \<Rightarrow> string" where
  "str_nat n = (if n < 10 then [digit_char n] else str_nat (n div 10) @ [digit_char (n mod 10)])"
  by pat_completeness auto
termination
  by (relation "measure id") auto

definition str_int :: "int \<Rightarrow> string" where
  "str_int i = (if i < 0 then CHR ''-'' # str_nat (nat (- i)) else str_nat (nat i))"

fun py_str :: "pyval \<Rightarrow> string" where
  "py_str (PStr s) = s"
| "py_str (PInt i) = str_int i"
| "py_str PNone = ''None''"
| "py_str PNaN = ''nan''"

text \<open>\<^verbatim>\<open>pd.notna(x)\<close> is false for \<^verbatim>\<open>None\<close> and for nan.\<close>

fun notna :: "pyval \<Rightarrow> bool" where
  "notna PNone = False"
| "notna PNaN = False"
| "notna _ = True"

text \<open>An element-wise \<^verbatim>\<open>==\<close> of pandas: a missing value equals nothing, not even
  itself; a string and an integer are never equal.\<close>

fun py_eq :: "pyval \<Rightarrow> pyval \<Rightarrow> bool" where
  "py_eq (PStr s) (PStr t) = (s = t)"
| "py_eq (PInt i) (PInt j) = (i = j)"
| "py_eq _ _ = False"

section \<open>Team name normalizer (\<^verbatim>\<open>DataCleaner.normalize_team_names\<close>)\<close>

text \<open>The dictionary \<^verbatim>\<open>team_mapping\<close> of \<^verbatim>\<open>data_cleaner.py\<close>, lines 82-97.\<close>

definition team_mapping :: "(string \<times> string) list" where
  "team_mapping =
    [(''manchester united'', ''man utd''),
     (''manchester city'', ''man city''),
     (''newcastle united'', ''newcastle''),
     (''tottenham'', ''spurs''),
     (''tottenham hotspur'', ''spurs''),
     (''wolverhampton'', ''wolves''),
     (''wolverhampton wanderers'', ''wolves''),
     (''brighton'', ''brighton''),
     (''brighton and hove albion'', ''brighton''),
     (''brighton & hove albion'', ''brighton''),
     (''leicester'', ''leicester''),
     (''leicester city'', ''leicester'')]"

text \<open>The function applied to every cell of the team column (line 101):
  \<^verbatim>\<open>lambda x: team_mapping.get(str(x).lower(), x) if pd.notna(x) else x\<close>.
  The key of the lookup is lower-cased; the default of the lookup is the cell itself.\<close>

definition normalize_team_name :: "pyval \<Rightarrow> pyval" where
  "normalize_team_name x =
     (if notna x
      then (case map_of team_mapping (py_lower (py_str x)) of
              Some canonical \<Rightarrow> PStr canonical
            | None \<Rightarrow> x)
      else x)"

text \<open>The normalizer as the specification words it: lower-case, strip, look up, and let a
  name that is not in the table through lower-cased.\<close>

definition spec_normalize :: "string \<Rightarrow> string" where
  "spec_normalize s =
     (case map_of team_mapping (py_lower (py_strip s)) of
        Some canonical \<Rightarrow> canonical
      | None \<Rightarrow> py_lower (py_strip s))"


section \<open>Name similarity scorer: the sequence matcher behind it\<close>

text \<open>
  \<^verbatim>\<open>PlayerMapper.get_name_similarity\<close> returns
  \<^verbatim>\<open>SequenceMatcher(None, name1, name2).ratio()\<close> of Python's standard module
  \<^verbatim>\<open>difflib\<close>. The repository calls it with no junk predicate and with the default
  \<^verbatim>\<open>autojunk=True\<close>; the definitions below follow \<^verbatim>\<open>difflib.py\<close> of CPython 3.11
  for that configuration, method by method.
\<close>

subsection \<open>\<^verbatim>\<open>__chain_b\<close>: the index of the second string\<close>

text \<open>With \<^verbatim>\<open>autojunk\<close>, in a second string of 200 characters or more a character that
  occurs more than \<^verbatim>\<open>n // 100 + 1\<close> times is popular, and its entry is deleted from
  \<^verbatim>\<open>b2j\<close>. The set \<^verbatim>\<open>bjunk\<close> is empty, because no junk predicate is given.\<close>

definition popular :: "string \<Rightarrow> char \<Rightarrow> bool" where
  "popular b c = (200 \<le> length b \<and> length b div 100 + 1 < count_list b c)"

text \<open>\<^verbatim>\<open>for i, elt in enumerate(b): b2j.setdefault(elt, []).append(i)\<close>: the indices of
  a character, in increasing order. \<^term>\<open>b2j b c\<close> is \<^verbatim>\<open>b2j.get(c, [])\<close> after the purge.\<close>

fun indices_from :: "string \<Rightarrow> nat \<Rightarrow> char \<Rightarrow> nat list" where
  "indices_from [] n c = []"
| "indices_from (x # xs) n c =
     (if x = c then n # indices_from xs (Suc n) c else indices_from xs (Suc n) c)"

definition b2j :: "string \<Rightarrow> char \<Rightarrow> nat list" where
  "b2j b c = (if popular b c then [] else indices_from b 0 c)"

subsection \<open>\<^verbatim>\<open>find_longest_match\<close>\<close>

text \<open>\<^verbatim>\<open>j2len.get(j-1, 0)\<close>: the dictionary has natural numbers as keys, so for \<^verbatim>\<open>j = 0\<close>
  the key \<^verbatim>\<open>-1\<close> is absent and the default is returned.\<close>

definition j2len_get :: "(nat \<rightharpoonup> nat) \<Rightarrow> nat \<Rightarrow> nat" where
  "j2len_get j2len j = (if j = 0 then 0 else case j2len (j - 1) of None \<Rightarrow> 0 | Some k \<Rightarrow> k)"

text \<open>
  The inner loop over \<^verbatim>\<open>b2j.get(a[i], nothing)\<close>: \<^verbatim>\<open>continue\<close> below \<^verbatim>\<open>blo\<close>,
  \<^verbatim>\<open>break\<close> from \<^verbatim>\<open>bhi\<close> on, otherwise
  \<^verbatim>\<open>k = newj2len[j] = j2lenget(j-1, 0) + 1\<close> and the best match is replaced when
  \<^verbatim>\<open>k > bestsize\<close>. The state is \<^verbatim>\<open>newj2len\<close> and the triple
  \<^verbatim>\<open>(besti, bestj, bestsize)\<close>. Python's \<^verbatim>\<open>i-k+1\<close> is written \<open>i + 1 - k\<close>: the
  two agree as \<open>k \<le> i + 1\<close>, which \<open>inner_loop_bounds\<close> below establishes.
\<close>

type_synonym match = "nat \<times> nat \<times> nat"

fun inner_loop :: "nat \<Rightarrow> nat \<Rightarrow> nat \<Rightarrow> (nat \<rightharpoonup> nat) \<Rightarrow> nat list
    \<Rightarrow> (nat \<rightharpoonup> nat) \<times> match \<Rightarrow> (nat \<rightharpoonup> nat) \<times> match" where
  "inner_loop i blo bhi j2len [] st = st"
| "inner_loop i blo bhi j2len (j # js) (newj2len, besti, bestj, bestsize) =
     (if j < blo then inner_loop i blo bhi j2len js (newj2len, besti, bestj, bestsize)
      else if bhi \<le> j then (newj2len, besti, bestj, bestsize)
      else let k = j2len_get j2len j + 1
           in inner_loop i blo bhi j2len js
                (newj2len(j \<mapsto> k),
                 if bestsize < k then (i + 1 - k, j + 1 - k, k) else (besti, bestj, bestsize)))"

text \<open>\<^verbatim>\<open>for i in range(alo, ahi)\<close>, with \<^verbatim>\<open>j2len = newj2len\<close> at the end of each turn.\<close>

function outer_loop :: "string \<Rightarrow> string \<Rightarrow> nat \<Rightarrow> nat \<Rightarrow> nat \<Rightarrow> nat
    \<Rightarrow> (nat \<rightharpoonup> nat) \<times> match \<Rightarrow> match" where
  "outer_loop a b i ahi blo bhi (j2len, best) =
     (if i < ahi
      then outer_loop a b (Suc i) ahi blo bhi
             (inner_loop i blo bhi j2len (b2j b (a ! i)) (Map.empty, best))
      else best)"
  by pat_completeness auto
termination
  by (relation "measure (\<lambda>(a, b, i, ahi, blo, bhi, st). ahi - i)") auto

text \<open>
  The two \<^verbatim>\<open>while\<close> loops that extend the match to the left and to the right. Their
  tests \<^verbatim>\<open>not isbjunk(...)\<close> are true, \<^verbatim>\<open>bjunk\<close> being empty; for the same reason the
  two loops after them, which test \<^verbatim>\<open>isbjunk(...)\<close>, never run and are left out.
  All reads \<^verbatim>\<open>a[...]\<close> and \<^verbatim>\<open>b[...]\<close> are within the strings when
  \<open>ahi \<le> length a\<close> and \<open>bhi \<le> length b\<close>, which holds for every call made by
  \<^verbatim>\<open>get_matching_blocks\<close>.
\<close>

function extend_left :: "string \<Rightarrow> string \<Rightarrow> nat \<Rightarrow> nat \<Rightarrow> match \<Rightarrow> match" where
  "extend_left a b alo blo (besti, bestj, bestsize) =
     (if alo < besti \<and> blo < bestj \<and> a ! (besti - 1) = b ! (bestj - 1)
      then extend_left a b alo blo (besti - 1, bestj - 1, bestsize + 1)
      else (besti, bestj, bestsize))"
  by pat_completeness auto
termination
  by (relation "measure (\<lambda>(a, b, alo, blo, besti, bestj, bestsize). besti)") auto

function extend_right :: "string \<Rightarrow> string \<Rightarrow> nat \<Rightarrow> nat \<Rightarrow> match \<Rightarrow> match" where
  "extend_right a b ahi bhi (besti, bestj, bestsize) =
     (if besti + bestsize < ahi \<and> bestj + bestsize < bhi
         \<and> a ! (besti + bestsize) = b ! (bestj + bestsize)
      then extend_right a b ahi bhi (besti, bestj, bestsize + 1)
      else (besti, bestj, bestsize))"
  by pat_completeness auto
termination
  by (relation "measure (\<lambda>(a, b, ahi, bhi, besti, bestj, bestsize). ahi - (besti + bestsize))") auto

definition find_longest_match :: "string \<Rightarrow> string \<Rightarrow> nat \<Rightarrow> nat \<Rightarrow> nat \<Rightarrow> nat \<Rightarrow> match" where
  "find_longest_match a b alo ahi blo bhi =
     extend_right a b ahi bhi
       (extend_left a b alo blo
          (outer_loop a b alo ahi blo bhi (Map.empty, alo, blo, 0)))"

subsection \<open>The match returned lies in the window searched\<close>

text \<open>These bounds are what makes the queue of \<^verbatim>\<open>get_matching_blocks\<close> run empty.\<close>

declare outer_loop.simps [simp del] extend_left.simps [simp del] extend_right.simps [simp del]

text \<open>Two invariants of the loops, used only in the proofs: every run length recorded in
  \<^verbatim>\<open>j2len\<close> after \<open>r\<close> rows fits into those rows and into the columns from \<open>blo\<close>, and
  the best match either is the initial \<open>(alo, blo, 0)\<close> or lies in the window.\<close>

definition j2len_ok :: "nat \<Rightarrow> nat \<Rightarrow> (nat \<rightharpoonup> nat) \<Rightarrow> bool" where
  "j2len_ok r blo j2len = (\<forall>j k. j2len j = Some k \<longrightarrow> k \<le> r \<and> blo \<le> j \<and> k \<le> j + 1 - blo)"

fun best_ok :: "nat \<Rightarrow> nat \<Rightarrow> nat \<Rightarrow> nat \<Rightarrow> match \<Rightarrow> bool" where
  "best_ok alo ihi blo bhi (besti, bestj, bestsize) =
     ((bestsize = 0 \<and> besti = alo \<and> bestj = blo)
      \<or> (alo \<le> besti \<and> besti + bestsize \<le> ihi \<and> blo \<le> bestj \<and> bestj + bestsize \<le> bhi))"

lemma j2len_get_le:
  assumes "j2len_ok r blo j2len" "blo \<le> j"
  shows "j2len_get j2len j \<le> r \<and> j2len_get j2len j \<le> j - blo"
proof (cases "j = 0")
  case True
  then show ?thesis by (simp add: j2len_get_def)
next
  case False
  show ?thesis
  proof (cases "j2len (j - 1)")
    case None
    then show ?thesis using False by (simp add: j2len_get_def)
  next
    case (Some k)
    then have "k \<le> r \<and> blo \<le> j - 1 \<and> k \<le> j - 1 + 1 - blo"
      using assms(1) unfolding j2len_ok_def by blast
    then show ?thesis using False Some by (simp add: j2len_get_def)
  qed
qed

lemma inner_loop_bounds:
  assumes "j2len_ok (i - alo) blo j2len" "alo \<le> i"
    and "j2len_ok (i + 1 - alo) blo newj2len"
    and "best_ok alo (i + 1) blo bhi best"
    and "inner_loop i blo bhi j2len js (newj2len, best) = (newj2len', best')"
  shows "j2len_ok (i + 1 - alo) blo newj2len' \<and> best_ok alo (i + 1) blo bhi best'"
  using assms(3-5)
proof (induction js arbitrary: newj2len best)
  case Nil
  then show ?case by simp
next
  case (Cons j js)
  obtain besti bestj bestsize where best: "best = (besti, bestj, bestsize)"
    by (cases best) auto
  show ?case
  proof (cases "j < blo")
    case True
    then have "inner_loop i blo bhi j2len js (newj2len, best) = (newj2len', best')"
      using Cons.prems(3) best by simp
    then show ?thesis by (rule Cons.IH[OF Cons.prems(1,2)])
  next
    case lo: False
    show ?thesis
    proof (cases "bhi \<le> j")
      case True
      then have "newj2len' = newj2len" "best' = best"
        using Cons.prems(3) lo best by auto
      then show ?thesis using Cons.prems(1,2) by simp
    next
      case hi: False
      define k where "k = j2len_get j2len j + 1"
      have kb: "k \<le> i + 1 - alo \<and> k \<le> j + 1 - blo"
        using j2len_get_le[OF assms(1), of j] lo assms(2) by (auto simp: k_def)
      have new_ok: "j2len_ok (i + 1 - alo) blo (newj2len(j \<mapsto> k))"
        using Cons.prems(1) kb lo unfolding j2len_ok_def by auto
      have best_new: "best_ok alo (i + 1) blo bhi
          (if bestsize < k then (i + 1 - k, j + 1 - k, k) else (besti, bestj, bestsize))"
        using Cons.prems(2) kb lo hi assms(2) best by auto
      have step: "inner_loop i blo bhi j2len js
            (newj2len(j \<mapsto> k),
             if bestsize < k then (i + 1 - k, j + 1 - k, k) else (besti, bestj, bestsize))
          = (newj2len', best')"
        using Cons.prems(3) lo hi best by (cases "bestsize < k") (simp_all add: k_def Let_def)
      show ?thesis by (rule Cons.IH[OF new_ok best_new step])
    qed
  qed
qed

lemma j2len_ok_empty: "j2len_ok r blo Map.empty"
  by (simp add: j2len_ok_def)

lemma best_ok_mono: "best_ok alo i blo bhi best \<Longrightarrow> i \<le> i' \<Longrightarrow> best_ok alo i' blo bhi best"
  by (cases best) auto

lemma outer_loop_bounds:
  assumes "j2len_ok (i - alo) blo j2len" "alo \<le> i" "best_ok alo i blo bhi best"
  shows "best_ok alo (max i ahi) blo bhi (outer_loop a b i ahi blo bhi (j2len, best))"
  using assms
proof (induction a b i ahi blo bhi "(j2len, best)" arbitrary: j2len best rule: outer_loop.induct)
  case (1 a b i ahi blo bhi j2len best)
  show ?case
  proof (cases "i < ahi")
    case False
    then show ?thesis using "1.prems" best_ok_mono[of alo i blo bhi best "max i ahi"]
      by (subst outer_loop.simps) simp
  next
    case True
    obtain new best' where r: "inner_loop i blo bhi j2len (b2j b (a ! i)) (Map.empty, best) = (new, best')"
      by (cases "inner_loop i blo bhi j2len (b2j b (a ! i)) (Map.empty, best)") auto
    have mx: "max i ahi = ahi" "max (Suc i) ahi = ahi" using True by auto
    have "j2len_ok (i + 1 - alo) blo new \<and> best_ok alo (i + 1) blo bhi best'"
    proof (rule inner_loop_bounds[OF "1.prems"(1,2) j2len_ok_empty _ r])
      show "best_ok alo (i + 1) blo bhi best"
        using "1.prems"(3) by (rule best_ok_mono) simp
    qed
    then have a1: "j2len_ok (Suc i - alo) blo new" and a3: "best_ok alo (Suc i) blo bhi best'"
      by auto
    have a2: "alo \<le> Suc i" using "1.prems"(2) by simp
    have "best_ok alo (max (Suc i) ahi) blo bhi (outer_loop a b (Suc i) ahi blo bhi (new, best'))"
      using "1.hyps"[OF True r a1 a2 a3] .
    then show ?thesis using True r by (subst outer_loop.simps) (simp add: mx)
  qed
qed

lemma extend_left_bounds:
  "best_ok alo ihi blo bhi best \<Longrightarrow> best_ok alo ihi blo bhi (extend_left a b alo blo best)"
proof (induction a b alo blo best rule: extend_left.induct)
  case (1 a b alo blo besti bestj bestsize)
  show ?case
  proof (cases "alo < besti \<and> blo < bestj \<and> a ! (besti - 1) = b ! (bestj - 1)")
    case True
    have "best_ok alo ihi blo bhi (besti - 1, bestj - 1, bestsize + 1)"
      using "1.prems" True by auto
    then show ?thesis using "1.IH"[OF True] True by (subst extend_left.simps) simp
  next
    case False
    then show ?thesis using "1.prems" by (subst extend_left.simps) auto
  qed
qed

lemma extend_right_bounds:
  "best_ok alo ahi blo bhi best \<Longrightarrow> best_ok alo ahi blo bhi (extend_right a b ahi bhi best)"
proof (induction a b ahi bhi best rule: extend_right.induct)
  case (1 a b ahi bhi besti bestj bestsize)
  show ?case
  proof (cases "besti + bestsize < ahi \<and> bestj + bestsize < bhi
         \<and> a ! (besti + bestsize) = b ! (bestj + bestsize)")
    case True
    have "best_ok alo ahi blo bhi (besti, bestj, bestsize + 1)"
      using "1.prems" True by auto
    then show ?thesis using "1.IH"[OF True] True by (subst extend_right.simps) simp
  next
    case False
    then show ?thesis using "1.prems" by (subst extend_right.simps) auto
  qed
qed

lemma find_longest_match_bounds:
  assumes "find_longest_match a b alo ahi blo bhi = (i, j, k)" "0 < k"
  shows "alo \<le> i \<and> i + k \<le> ahi \<and> blo \<le> j \<and> j + k \<le> bhi"
proof -
  show ?thesis
  proof (cases "alo \<le> ahi")
    case True
    have "best_ok alo (max alo ahi) blo bhi (outer_loop a b alo ahi blo bhi (Map.empty, alo, blo, 0))"
      by (rule outer_loop_bounds) (simp_all add: j2len_ok_empty)
    then have "best_ok alo ahi blo bhi (outer_loop a b alo ahi blo bhi (Map.empty, alo, blo, 0))"
      using True by (simp add: max_def)
    then have "best_ok alo ahi blo bhi (find_longest_match a b alo ahi blo bhi)"
      unfolding find_longest_match_def
      by (intro extend_right_bounds extend_left_bounds)
    then show ?thesis using assms by auto
  next
    case False
    then have "find_longest_match a b alo ahi blo bhi = (alo, blo, 0)"
      unfolding find_longest_match_def
      by (simp add: outer_loop.simps extend_left.simps extend_right.simps)
    then show ?thesis using assms by simp
  qed
qed

subsection \<open>\<^verbatim>\<open>get_matching_blocks\<close> and \<^verbatim>\<open>ratio\<close>\<close>

text \<open>
  The \<^verbatim>\<open>while queue\<close> loop. The queue is a Python list used as a stack:
  \<^verbatim>\<open>queue.pop()\<close> takes the last element, so the head of the list below is the
  element appended last (the window to the right of the match, when there is one).
\<close>

type_synonym rect = "nat \<times> nat \<times> nat \<times> nat"

fun rect_weight :: "rect \<Rightarrow> nat" where
  "rect_weight (alo, ahi, blo, bhi) = 2 * (ahi - alo) + 1"

function blocks_loop :: "string \<Rightarrow> string \<Rightarrow> rect list \<Rightarrow> match list \<Rightarrow> match list" where
  "blocks_loop a b [] matching_blocks = matching_blocks"
| "blocks_loop a b ((alo, ahi, blo, bhi) # queue) matching_blocks =
     (case find_longest_match a b alo ahi blo bhi of
        (i, j, k) \<Rightarrow>
          if k \<noteq> 0
          then blocks_loop a b
                 ((if i + k < ahi \<and> j + k < bhi then [(i + k, ahi, j + k, bhi)] else [])
                  @ (if alo < i \<and> blo < j then [(alo, i, blo, j)] else [])
                  @ queue)
                 (matching_blocks @ [(i, j, k)])
          else blocks_loop a b queue matching_blocks)"
  by pat_completeness auto
termination
  apply (relation "measure (\<lambda>(a, b, queue, blocks). sum_list (map rect_weight queue))")
    apply simp
   apply (auto dest!: find_longest_match_bounds [OF sym])
  done

text \<open>After \<^verbatim>\<open>matching_blocks.sort()\<close>, adjacent blocks are merged
  (\<^verbatim>\<open>i1, j1, k1\<close> is the block being grown) and the sentinel
  \<^verbatim>\<open>(la, lb, 0)\<close> is appended. Tuples are sorted lexicographically.\<close>

fun collapse :: "match \<Rightarrow> match list \<Rightarrow> match list" where
  "collapse (i1, j1, k1) [] = (if k1 \<noteq> 0 then [(i1, j1, k1)] else [])"
| "collapse (i1, j1, k1) ((i2, j2, k2) # rest) =
     (if i1 + k1 = i2 \<and> j1 + k1 = j2
      then collapse (i1, j1, k1 + k2) rest
      else (if k1 \<noteq> 0 then [(i1, j1, k1)] else []) @ collapse (i2, j2, k2) rest)"

definition get_matching_blocks :: "string \<Rightarrow> string \<Rightarrow> match list" where
  "get_matching_blocks a b =
     collapse (0, 0, 0) (sort (blocks_loop a b [(0, length a, 0, length b)] []))
     @ [(length a, length b, 0)]"

fun match_size :: "match \<Rightarrow> nat" where
  "match_size (i, j, k) = k"

text \<open>
  \<^verbatim>\<open>_calculate_ratio\<close> computes \<^verbatim>\<open>2.0 * matches / length\<close> in double precision.
  The product is exact (string lengths are far below \<open>2 ^ 52\<close>), and the quotient of the
  two integers \<open>n\<close> and \<open>d\<close> is rounded to the nearest double, ties to even:
  \<^term>\<open>float_div n d\<close> is that double, as a rational number. With \<open>2 ^ e \<le> n / d < 2 ^ (e + 1)\<close>
  the double is \<open>m * 2 ^ (e - 52)\<close>, where \<open>m\<close> is \<open>n / d * 2 ^ (52 - e)\<close> rounded to an
  integer. \<^term>\<open>float_div\<close> is only ever called with a positive divisor, and exponents stay
  far inside the range of normal doubles.
\<close>

definition round_half_even :: "int \<Rightarrow> int \<Rightarrow> int" where
  "round_half_even n d =
     (let q = n div d; r = n mod d
      in if 2 * r < d then q
         else if d < 2 * r then q + 1
         else if even q then q else q + 1)"

function shift_up :: "int \<Rightarrow> int \<Rightarrow> nat" where
  "shift_up n d = (if n \<le> 0 \<or> d \<le> n then 0 else Suc (shift_up (2 * n) d))"
  by pat_completeness auto
termination
  by (relation "measure (\<lambda>(n, d). nat (d - n))") auto

function shift_down :: "int \<Rightarrow> int \<Rightarrow> nat" where
  "shift_down n d = (if d \<le> 0 \<or> n < 2 * d then 0 else Suc (shift_down n (2 * d)))"
  by pat_completeness auto
termination
  by (relation "measure (\<lambda>(n, d). nat (n - d))") auto

declare shift_up.simps [simp del] shift_down.simps [simp del] blocks_loop.simps [simp del]

definition float_div :: "int \<Rightarrow> int \<Rightarrow> rat" where
  "float_div n d =
     (if n = 0 then 0
      else if d \<le> n
      then let e = shift_down n d
           in if e \<le> 52
              then of_int (round_half_even (n * 2 ^ (52 - e)) d) / 2 ^ (52 - e)
              else of_int (round_half_even n (d * 2 ^ (e - 52))) * 2 ^ (e - 52)
      else let e = shift_up n d
           in of_int (round_half_even (n * 2 ^ (52 + e)) d) / 2 ^ (52 + e))"

definition calculate_ratio :: "nat \<Rightarrow> nat \<Rightarrow> rat" where
  "calculate_ratio matches len =
     (if len \<noteq> 0 then float_div (2 * int matches) (int len) else 1)"

definition ratio :: "string \<Rightarrow> string \<Rightarrow> rat" where
  "ratio a b =
     calculate_ratio (sum_list (map match_size (get_matching_blocks a b))) (length a + length b)"

section \<open>Name similarity scorer (\<^verbatim>\<open>PlayerMapper.get_name_similarity\<close>)\<close>

text \<open>Lines 81-85: both names go through \<^verbatim>\<open>str(...).lower().strip()\<close> and are compared
  by the sequence matcher.\<close>

definition clean_name :: "pyval \<Rightarrow> string" where
  "clean_name name = py_strip (py_lower (py_str name))"

definition get_name_similarity :: "pyval \<Rightarrow> pyval \<Rightarrow> rat" where
  "get_name_similarity name1 name2 = ratio (clean_name name1) (clean_name name2)"

section \<open>Manual mapping store\<close>


type_synonym overlay = "(string \<times> string) list"


datatype log_level = INFO | WARNING | ERROR







section \<open>Player matcher (\<^verbatim>\<open>PlayerMapper.map_players\<close>)\<close>

subsection \<open>\<^verbatim>\<open>int(fpl_id_str)\<close>\<close>

text \<open>
  \<^verbatim>\<open>int\<close> of a string: white space (9-13, 32, 133, 160) is dropped at both ends, one
  sign may follow, then decimal digits, with single underscores allowed between digits.
  Anything else raises \<^verbatim>\<open>ValueError\<close>, and so do more than 4300 digits (the default
  limit of CPython 3.11).
\<close>

definition is_int_space :: "char \<Rightarrow> bool" where
  "is_int_space c =
     (let n = (of_char c :: nat)
      in (9 \<le> n \<and> n \<le> 13) \<or> n = 32 \<or> n = 133 \<or> n = 160)"

definition is_digit :: "char \<Rightarrow> bool" where
  "is_digit c = (let n = (of_char c :: nat) in 48 \<le> n \<and> n \<le> 57)"

fun digits_ok :: "string \<Rightarrow> bool" where
  "digits_ok [] = False"
| "digits_ok [c] = is_digit c"
| "digits_ok (c # d # rest) =
     (is_digit c \<and> (if d = CHR ''_'' then digits_ok rest else digits_ok (d # rest)))"

definition digits_value :: "string \<Rightarrow> int" where
  "digits_value s = foldl (\<lambda>acc c. 10 * acc + (of_char c - 48)) 0 (filter is_digit s)"

definition int_max_str_digits :: nat where
  "int_max_str_digits = 4300"

definition py_int :: "string \<Rightarrow> py_error + int" where
  "py_int s =
     (let t = rev (dropWhile is_int_space (rev (dropWhile is_int_space s)));
          negative = (t \<noteq> [] \<and> hd t = CHR ''-'');
          body = (if t \<noteq> [] \<and> (hd t = CHR ''-'' \<or> hd t = CHR ''+'') then tl t else t)
      in if digits_ok body \<and> length (filter is_digit body) \<le> int_max_str_digits
         then Inr (if negative then - digits_value body else digits_value body)
         else Inl ValueError)"

subsection \<open>Tables and mapping entries\<close>

text \<open>
  A row of a player table, with the columns the matcher reads: the id, the name and the team
  (whatever they are called in the source table), and the column \<^verbatim>\<open>normalized_team\<close>,
  which is \<^term>\<open>None\<close> while the table does not have it. Primary ids are integers,
  secondary ids are strings. A table is the list of its rows, in order.
\<close>

record 'i row =
  id_col :: 'i
  name_col :: pyval
  team_col :: pyval
  normalized_team_col :: "pyval option"

datatype match_type = Manual | Automated

record mapping =
  fpl_id :: int
  understat_id :: string
  fpl_name :: pyval
  understat_name :: pyval
  matching_type :: match_type
  similarity :: rat

text \<open>\<^verbatim>\<open>DataCleaner.normalize_team_names\<close> on a table (lines 75-105): an empty table is
  returned as it is, otherwise the column \<^verbatim>\<open>normalized_team\<close> is set in every row to
  the normalized team of that row.\<close>

definition with_normalized_team :: "'i row \<Rightarrow> 'i row" where
  "with_normalized_team r = r\<lparr>normalized_team_col := Some (normalize_team_name (team_col r))\<rparr>"

definition normalize_team_names :: "'i row list \<Rightarrow> 'i row list" where
  "normalize_team_names df = (if df = [] then df else map with_normalized_team df)"

subsection \<open>Manual pass (lines 115-136)\<close>

text \<open>
  The overlay is walked in order. \<^verbatim>\<open>int(fpl_id_str)\<close> may raise, which ends the call
  (the variables \<^verbatim>\<open>fpl_id\<close> and \<^verbatim>\<open>understat_id\<close> of the source are \<open>fid\<close> and
  \<open>us_id\<close> here).
  A pair whose primary id or secondary id is in no row is skipped; otherwise the entry takes
  the names of the first row with that id (\<^verbatim>\<open>iloc[0]\<close>).
\<close>

fun manual_pass :: "overlay \<Rightarrow> int row list \<Rightarrow> string row list \<Rightarrow> py_error + mapping list" where
  "manual_pass [] fpl_df understat_df = Inr []"
| "manual_pass ((fpl_id_str, us_id) # items) fpl_df understat_df =
     (case py_int fpl_id_str of
        Inl e \<Rightarrow> Inl e
      | Inr fid \<Rightarrow>
          (case manual_pass items fpl_df understat_df of
             Inl e \<Rightarrow> Inl e
           | Inr mappings \<Rightarrow>
               (case filter (\<lambda>r. id_col r = fid) fpl_df of
                  [] \<Rightarrow> Inr mappings
                | fpl_player # _ \<Rightarrow>
                    (case filter (\<lambda>r. id_col r = us_id) understat_df of
                       [] \<Rightarrow> Inr mappings
                     | understat_player # _ \<Rightarrow>
                         Inr (\<lparr>fpl_id = fid, understat_id = us_id,
                               fpl_name = name_col fpl_player,
                               understat_name = name_col understat_player,
                               matching_type = Manual, similarity = 1\<rparr> # mappings)))))"

text \<open>Line 139: \<^verbatim>\<open>[int(fpl_id) for fpl_id in self.manual_mappings.keys()]\<close>.\<close>

fun int_keys :: "overlay \<Rightarrow> py_error + int list" where
  "int_keys [] = Inr []"
| "int_keys ((fpl_id_str, us_id) # items) =
     (case py_int fpl_id_str of
        Inl e \<Rightarrow> Inl e
      | Inr fid \<Rightarrow> (case int_keys items of Inl e \<Rightarrow> Inl e | Inr ids \<Rightarrow> Inr (fid # ids)))"

subsection \<open>Remaining rows (lines 139-152)\<close>

text \<open>The rows whose id is not among the ids of the overlay, with their teams normalized.\<close>

definition remaining_fpl :: "int list \<Rightarrow> int row list \<Rightarrow> int row list" where
  "remaining_fpl matched_fpl_ids fpl_df =
     normalize_team_names (filter (\<lambda>r. id_col r \<notin> set matched_fpl_ids) fpl_df)"

definition remaining_understat :: "overlay \<Rightarrow> string row list \<Rightarrow> string row list" where
  "remaining_understat manual understat_df =
     normalize_team_names (filter (\<lambda>r. id_col r \<notin> set (map snd manual)) understat_df)"

subsection \<open>Automated pass (lines 154-189)\<close>

text \<open>\<^verbatim>\<open>row.get('normalized_team', row['team'])\<close>.\<close>

definition team_of :: "'i row \<Rightarrow> pyval" where
  "team_of r = (case normalized_team_col r of Some t \<Rightarrow> t | None \<Rightarrow> team_col r)"

definition same_team_players :: "string row list \<Rightarrow> pyval \<Rightarrow> string row list" where
  "same_team_players remaining fpl_team = filter (\<lambda>u. py_eq (team_of u) fpl_team) remaining"

text \<open>The loop over \<^verbatim>\<open>same_team_players\<close> (lines 169-178); the state is
  \<^verbatim>\<open>(best_match, best_similarity)\<close>, which starts as \<^verbatim>\<open>(None, 0)\<close>.\<close>

fun best_scan :: "pyval \<Rightarrow> string row list \<Rightarrow> string row option \<times> rat \<Rightarrow> string row option \<times> rat" where
  "best_scan name [] st = st"
| "best_scan name (understat_player # rest) (best_match, best_similarity) =
     (let sim = get_name_similarity name (name_col understat_player)
      in if best_similarity < sim
         then best_scan name rest (Some understat_player, sim)
         else best_scan name rest (best_match, best_similarity))"

text \<open>Lines 156-189 for one primary row: the entry appended for it, if any.\<close>

definition match_one :: "int row \<Rightarrow> string row list \<Rightarrow> rat \<Rightarrow> mapping list" where
  "match_one fpl_player remaining threshold =
     (case best_scan (name_col fpl_player)
             (same_team_players remaining (team_of fpl_player)) (None, 0) of
        (None, best_similarity) \<Rightarrow> []
      | (Some best_match, best_similarity) \<Rightarrow>
          if threshold \<le> best_similarity
          then [\<lparr>fpl_id = id_col fpl_player, understat_id = id_col best_match,
                 fpl_name = name_col fpl_player, understat_name = name_col best_match,
                 matching_type = Automated, similarity = best_similarity\<rparr>]
          else [])"

fun automated_pass :: "int row list \<Rightarrow> string row list \<Rightarrow> rat \<Rightarrow> mapping list" where
  "automated_pass [] remaining threshold = []"
| "automated_pass (fpl_player # rest) remaining threshold =
     match_one fpl_player remaining threshold @ automated_pass rest remaining threshold"

subsection \<open>\<^verbatim>\<open>map_players\<close> (lines 87-198)\<close>

text \<open>
  An empty table on either side returns an empty table at once. Otherwise the entries of the
  manual pass are followed by those of the automated pass. The logging call of lines
  194-196 reads the column \<^verbatim>\<open>matching_type\<close> of the data frame built from the entries;
  a data frame built from an empty list has no columns, so the read raises
  \<^verbatim>\<open>KeyError\<close> and line 198 is not reached.
\<close>

definition map_players ::
  "overlay \<Rightarrow> int row list \<Rightarrow> string row list \<Rightarrow> rat \<Rightarrow> py_error + mapping list" where
  "map_players manual fpl_df understat_df threshold =
     (if fpl_df = [] \<or> understat_df = [] then Inr []
      else case manual_pass manual fpl_df understat_df of
             Inl e \<Rightarrow> Inl e
           | Inr manual_entries \<Rightarrow>
               (case int_keys manual of
                  Inl e \<Rightarrow> Inl e
                | Inr matched_fpl_ids \<Rightarrow>
                    (let mappings = manual_entries
                           @ automated_pass (remaining_fpl matched_fpl_ids fpl_df)
                               (remaining_understat manual understat_df) threshold
                     in if mappings = [] then Inl KeyError else Inr mappings)))"

text \<open>The default of the parameter \<^verbatim>\<open>threshold\<close>: the double written \<^verbatim>\<open>0.8\<close>.\<close>

definition default_threshold :: rat where
  "default_threshold = float_div 4 5"

subsection \<open>\<^verbatim>\<open>map_players\<close> as a method of the mapper\<close>




subsection \<open>\<^verbatim>\<open>export_missing_mappings\<close> (lines 213-229)\<close>

text \<open>The rows returned: the primary rows whose id is in no entry. (The rows are also
  written to a CSV file, which is not modelled.)\<close>

definition export_missing_mappings :: "int row list \<Rightarrow> mapping list \<Rightarrow> int row list" where
  "export_missing_mappings fpl_df mappings_df =
     (if fpl_df = [] then []
      else filter (\<lambda>r. id_col r \<notin> set (map fpl_id mappings_df)) fpl_df)"

section \<open>Example tables\<close>

text \<open>Small tables on which the matcher is run in the sequel. \<^term>\<open>mk_row\<close> builds a row
  whose name and team are strings and which has no normalized team yet.\<close>

definition mk_row :: "'i \<Rightarrow> string \<Rightarrow> string \<Rightarrow> 'i row" where
  "mk_row i name team =
     \<lparr>id_col = i, name_col = PStr name, team_col = PStr team, normalized_team_col = None\<rparr>"

definition spurs_fpl :: "int row list" where
  "spurs_fpl = [mk_row 1 ''Harry Kane'' ''Tottenham'', mk_row 2 ''Harry Kane'' ''Tottenham'']"

definition spurs_understat :: "string row list" where
  "spurs_understat =
     [mk_row ''u1'' ''Harry Kane'' ''Tottenham Hotspur'',
      mk_row ''u2'' ''Harry Kane Jr'' ''Tottenham Hotspur'']"

definition spurs_result :: "mapping list" where
  "spurs_result =
     [\<lparr>fpl_id = 1, understat_id = ''u1'', fpl_name = PStr ''Harry Kane'',
       understat_name = PStr ''Harry Kane'', matching_type = Manual, similarity = 1\<rparr>,
      \<lparr>fpl_id = 2, understat_id = ''u2'', fpl_name = PStr ''Harry Kane'',
       understat_name = PStr ''Harry Kane Jr'', matching_type = Automated,
       similarity = float_div 20 23\<rparr>]"

definition dup_key_result :: "mapping list" where
  "dup_key_result =
     [\<lparr>fpl_id = 1, understat_id = ''u1'', fpl_name = PStr ''Harry Kane'',
       understat_name = PStr ''Harry Kane'', matching_type = Manual, similarity = 1\<rparr>,
      \<lparr>fpl_id = 1, understat_id = ''u2'', fpl_name = PStr ''Harry Kane'',
       understat_name = PStr ''Harry Kane Jr'', matching_type = Manual, similarity = 1\<rparr>]"

definition two_clubs_fpl :: "int row list" where
  "two_clubs_fpl = [mk_row 1 ''Harry Kane'' ''Tottenham'', mk_row 2 ''Harry Kane'' ''Arsenal'']"

definition two_clubs_result :: "mapping list" where
  "two_clubs_result =
     [\<lparr>fpl_id = 1, understat_id = ''u1'', fpl_name = PStr ''Harry Kane'',
       understat_name = PStr ''Harry Kane'', matching_type = Automated, similarity = 1\<rparr>]"

definition stale_overlay :: overlay where
  "stale_overlay = [(''1'', ''gone''), (''99'', ''u1'')]"

definition stale_result :: "mapping list" where
  "stale_result =
     [\<lparr>fpl_id = 2, understat_id = ''u2'', fpl_name = PStr ''Harry Kane'',
       understat_name = PStr ''Harry Kane Jr'', matching_type = Automated,
       similarity = float_div 20 23\<rparr>]"

definition ramsey_fpl :: "int row list" where
  "ramsey_fpl = [mk_row 1 ''Ramsey'' ''Arsenal'', mk_row 2 ''Xhaka'' ''Arsenal'']"

definition ramsey_understat :: "string row list" where
  "ramsey_understat = [mk_row ''u1'' ''Rams'' ''Arsenal'']"

definition ramsey_result :: "mapping list" where
  "ramsey_result =
     [\<lparr>fpl_id = 1, understat_id = ''u1'', fpl_name = PStr ''Ramsey'',
       understat_name = PStr ''Rams'', matching_type = Automated,
       similarity = default_threshold\<rparr>]"

definition tony_fpl :: "int row list" where
  "tony_fpl = [mk_row 1 ''Rams'' ''Arsenal'', mk_row 2 ''Tony'' ''Arsenal'']"

definition tony_result :: "mapping list" where
  "tony_result =
     [\<lparr>fpl_id = 1, understat_id = ''u1'', fpl_name = PStr ''Rams'',
       understat_name = PStr ''Rams'', matching_type = Automated, similarity = 1\<rparr>]"

definition kane_twice :: "mapping list" where
  "kane_twice =
     [\<lparr>fpl_id = 1, understat_id = ''u1'', fpl_name = PStr ''Harry Kane'',
       understat_name = PStr ''Harry Kane'', matching_type = Automated, similarity = 1\<rparr>,
      \<lparr>fpl_id = 2, understat_id = ''u1'', fpl_name = PStr ''Harry Kane'',
       understat_name = PStr ''Harry Kane'', matching_type = Automated, similarity = 1\<rparr>]"

definition de_bruyne_fpl :: "int row list" where
  "de_bruyne_fpl = [mk_row 2 ''Kevin De Bruyne'' ''Man City'']"

definition de_bruyne_understat :: "string row list" where
  "de_bruyne_understat = [mk_row ''u2'' ''K. De Bruyne'' ''Manchester City'']"

definition kane_fpl :: "int row list" where
  "kane_fpl = [mk_row 1 ''Harry Kane'' ''Tottenham Hotspur'']"

definition kane_understat :: "string row list" where
  "kane_understat = [mk_row ''u1'' ''Harry Kane'' ''Spurs'']"

section \<open>Properties of the sequence matcher\<close>

subsection \<open>Sorting and merging keep the number of matched characters\<close>

lemma sum_collapse:
  "sum_list (map match_size (collapse m xs)) = match_size m + sum_list (map match_size xs)"
proof (induction m xs rule: collapse.induct)
  case (1 i1 j1 k1)
  then show ?case by simp
next
  case (2 i1 j1 k1 i2 j2 k2 rest)
  then show ?case by (cases "i1 + k1 = i2 \<and> j1 + k1 = j2") auto
qed

lemma sum_insort:
  "sum_list (map f (insort x xs)) = f x + sum_list (map (f :: match \<Rightarrow> nat) xs)"
  by (induction xs) auto

lemma sum_sort: "sum_list (map f (sort xs)) = sum_list (map (f :: match \<Rightarrow> nat) xs)"
  by (induction xs) (auto simp: sum_insort)

lemma matches_total:
  "sum_list (map match_size (get_matching_blocks a b))
   = sum_list (map match_size (blocks_loop a b [(0, length a, 0, length b)] []))"
  by (simp add: get_matching_blocks_def sum_collapse sum_sort)

text \<open>The height and the width of a window of the queue: the matched characters found in
  a window are at most either.\<close>

fun rect_a :: "rect \<Rightarrow> nat" where
  "rect_a (alo, ahi, blo, bhi) = ahi - alo"

fun rect_b :: "rect \<Rightarrow> nat" where
  "rect_b (alo, ahi, blo, bhi) = bhi - blo"

lemma blocks_loop_le:
  "sum_list (map match_size (blocks_loop a b queue acc))
     \<le> sum_list (map match_size acc) + sum_list (map rect_a queue)
   \<and> sum_list (map match_size (blocks_loop a b queue acc))
     \<le> sum_list (map match_size acc) + sum_list (map rect_b queue)"
proof (induction a b queue acc rule: blocks_loop.induct)
  case (1 a b matching_blocks)
  then show ?case by (simp add: blocks_loop.simps(1))
next
  case (2 a b alo ahi blo bhi queue matching_blocks)
  obtain i j k where f: "find_longest_match a b alo ahi blo bhi = (i, j, k)"
    by (cases "find_longest_match a b alo ahi blo bhi") auto
  show ?case
  proof (cases "k = 0")
    case True
    have eq: "blocks_loop a b ((alo, ahi, blo, bhi) # queue) matching_blocks
        = blocks_loop a b queue matching_blocks"
      by (subst blocks_loop.simps(2)) (simp add: f True)
    show ?thesis unfolding eq using "2.IH"(2)[OF f[symmetric] refl] True by auto
  next
    case False
    then have bd: "alo \<le> i \<and> i + k \<le> ahi \<and> blo \<le> j \<and> j + k \<le> bhi"
      using find_longest_match_bounds[OF f] by simp
    define queue' where "queue' =
        (if i + k < ahi \<and> j + k < bhi then [(i + k, ahi, j + k, bhi)] else [])
        @ (if alo < i \<and> blo < j then [(alo, i, blo, j)] else []) @ queue"
    have eq: "blocks_loop a b ((alo, ahi, blo, bhi) # queue) matching_blocks
        = blocks_loop a b queue' (matching_blocks @ [(i, j, k)])"
      unfolding queue'_def by (subst blocks_loop.simps(2)) (simp add: f False)
    have qa: "k + sum_list (map rect_a queue') \<le> (ahi - alo) + sum_list (map rect_a queue)"
      using bd by (auto simp: queue'_def)
    have qb: "k + sum_list (map rect_b queue') \<le> (bhi - blo) + sum_list (map rect_b queue)"
      using bd by (auto simp: queue'_def)
    have ih: "sum_list (map match_size (blocks_loop a b queue' (matching_blocks @ [(i, j, k)])))
         \<le> sum_list (map match_size (matching_blocks @ [(i, j, k)])) + sum_list (map rect_a queue')
       \<and> sum_list (map match_size (blocks_loop a b queue' (matching_blocks @ [(i, j, k)])))
         \<le> sum_list (map match_size (matching_blocks @ [(i, j, k)])) + sum_list (map rect_b queue')"
      using "2.IH"(1)[OF f[symmetric] refl] False unfolding queue'_def by simp
    show ?thesis unfolding eq using ih qa qb by simp
  qed
qed

lemma matches_le:
  "sum_list (map match_size (get_matching_blocks a b)) \<le> length a"
  "sum_list (map match_size (get_matching_blocks a b)) \<le> length b"
  using blocks_loop_le[of a b "[(0, length a, 0, length b)]" "[]"]
  by (simp_all add: matches_total)

lemma round_half_even_le:
  assumes "0 < d" "n \<le> d * K"
  shows "round_half_even n d \<le> K"
proof -
  have q: "n div d \<le> K"
  proof -
    have "n div d \<le> (d * K) div d" using assms by (intro zdiv_mono1) simp_all
    then show ?thesis using assms(1) by simp
  qed
  show ?thesis
  proof (cases "n div d = K")
    case True
    have "d * (n div d) + n mod d = n" by (rule mult_div_mod_eq)
    then have "n mod d = n - d * K" using True by simp
    then have "n mod d \<le> 0" using assms by simp
    then have "2 * (n mod d) < d" using assms by simp
    then show ?thesis using True by (simp add: round_half_even_def Let_def)
  next
    case False
    then have "n div d + 1 \<le> K" using q by simp
    then show ?thesis by (auto simp: round_half_even_def Let_def)
  qed
qed

lemma round_half_even_ge:
  assumes "0 < d" "0 \<le> n"
  shows "0 \<le> round_half_even n d"
proof -
  have "0 \<le> n div d" using assms by (simp add: pos_imp_zdiv_nonneg_iff)
  then show ?thesis by (auto simp: round_half_even_def Let_def)
qed

lemma float_div_self: "0 < d \<Longrightarrow> float_div d d = 1"
proof -
  assume d: "0 < d"
  then have "shift_down d d = 0" by (simp add: shift_down.simps)
  moreover have "round_half_even (d * 2 ^ 52) d = 2 ^ 52"
    using d by (simp add: round_half_even_def)
  ultimately show ?thesis using d by (simp add: float_div_def)
qed

lemma float_div_unit:
  assumes "0 \<le> n" "n \<le> d" "0 < d"
  shows "0 \<le> float_div n d \<and> float_div n d \<le> 1"
proof (cases "n = 0 \<or> n = d")
  case True
  then show ?thesis using assms float_div_self[of d] by (auto simp: float_div_def)
next
  case False
  then have lt: "0 < n" "n < d" using assms by auto
  define K :: int where "K = 2 ^ (52 + shift_up n d)"
  have K: "0 < K" by (simp add: K_def)
  have eq: "float_div n d = of_int (round_half_even (n * K) d) / of_int K"
    using lt by (simp add: float_div_def K_def Let_def)
  have "n * K \<le> d * K" using lt K by simp
  then have up: "round_half_even (n * K) d \<le> K"
    using round_half_even_le[OF assms(3)] by simp
  have lo: "0 \<le> round_half_even (n * K) d"
    using round_half_even_ge[OF assms(3)] lt K by simp
  show ?thesis unfolding eq using up lo K by (simp add: divide_le_eq_1)
qed

lemma calculate_ratio_unit:
  assumes "2 * matches \<le> len"
  shows "0 \<le> calculate_ratio matches len \<and> calculate_ratio matches len \<le> 1"
proof (cases "len = 0")
  case True
  then show ?thesis by (simp add: calculate_ratio_def)
next
  case False
  then show ?thesis
    using float_div_unit[of "2 * int matches" "int len"] assms
    by (simp add: calculate_ratio_def)
qed

lemma ratio_unit: "0 \<le> ratio a b \<and> ratio a b \<le> 1"
  unfolding ratio_def
  using matches_le[of a b] by (intro calculate_ratio_unit) simp

subsection \<open>Strings without a common character\<close>

lemma indices_from_notin: "c \<notin> set b \<Longrightarrow> indices_from b n c = []"
  by (induction b arbitrary: n) auto

lemma b2j_notin: "c \<notin> set b \<Longrightarrow> b2j b c = []"
  by (simp add: b2j_def indices_from_notin)

lemma outer_loop_no_match:
  assumes "\<forall>i'. i \<le> i' \<and> i' < ahi \<longrightarrow> b2j b (a ! i') = []"
  shows "outer_loop a b i ahi blo bhi (j2len, best) = best"
  using assms
proof (induction a b i ahi blo bhi "(j2len, best)" arbitrary: j2len rule: outer_loop.induct)
  case (1 a b i ahi blo bhi j2len)
  show ?case
  proof (cases "i < ahi")
    case True
    then have e: "b2j b (a ! i) = []" using "1.prems" by simp
    have "outer_loop a b (Suc i) ahi blo bhi (Map.empty, best) = best"
      using "1.hyps"[OF True, of Map.empty] "1.prems" e by simp
    then show ?thesis using True e by (subst outer_loop.simps) simp
  next
    case False
    then show ?thesis by (subst outer_loop.simps) simp
  qed
qed

lemma find_longest_match_disjoint:
  assumes "set a \<inter> set b = {}"
  shows "find_longest_match a b 0 (length a) 0 (length b) = (0, 0, 0)"
proof -
  have "\<forall>i'. 0 \<le> i' \<and> i' < length a \<longrightarrow> b2j b (a ! i') = []"
  proof (intro allI impI)
    fix i' assume "0 \<le> i' \<and> i' < length a"
    then have "a ! i' \<in> set a" by simp
    then have "a ! i' \<notin> set b" using assms by blast
    then show "b2j b (a ! i') = []" by (rule b2j_notin)
  qed
  then have o: "outer_loop a b 0 (length a) 0 (length b) (Map.empty, 0, 0, 0) = (0, 0, 0)"
    by (rule outer_loop_no_match)
  have l: "extend_left a b 0 0 (0, 0, 0) = (0, 0, 0)"
    by (subst extend_left.simps) simp
  have "\<not> (0 < length a \<and> 0 < length b \<and> a ! 0 = b ! 0)"
    using assms by (metis disjoint_iff nth_mem)
  then have r: "extend_right a b (length a) (length b) (0, 0, 0) = (0, 0, 0)"
    by (subst extend_right.simps) auto
  show ?thesis by (simp add: find_longest_match_def o l r)
qed

lemma ratio_disjoint:
  assumes "set a \<inter> set b = {}" "a \<noteq> [] \<or> b \<noteq> []"
  shows "ratio a b = 0"
proof -
  have "blocks_loop a b [(0, length a, 0, length b)] [] = []"
    by (subst blocks_loop.simps(2))
       (simp add: find_longest_match_disjoint[OF assms(1)] blocks_loop.simps(1))
  then have "sum_list (map match_size (get_matching_blocks a b)) = 0"
    by (simp add: matches_total)
  then show ?thesis using assms(2)
    by (auto simp: ratio_def calculate_ratio_def float_div_def)
qed

subsection \<open>Equal strings\<close>

text \<open>
  For a string compared with itself, \<^term>\<open>run a i j\<close> is the value that the loops store in
  \<^verbatim>\<open>j2len\<close> for row \<open>i\<close> and column \<open>j\<close>: the length of the common run of
  characters that are not popular ending there. It is symmetric and largest on the diagonal,
  so the first longest run that the loops meet is on the diagonal, and the two extension loops
  stretch it over the whole string, popular characters included.
\<close>

definition cell :: "string \<Rightarrow> nat \<Rightarrow> nat \<Rightarrow> bool" where
  "cell a i j = (a ! i = a ! j \<and> \<not> popular a (a ! i))"

fun run :: "string \<Rightarrow> nat \<Rightarrow> nat \<Rightarrow> nat" where
  "run a 0 j = (if cell a 0 j then 1 else 0)"
| "run a (Suc i) 0 = (if cell a (Suc i) 0 then 1 else 0)"
| "run a (Suc i) (Suc j) = (if cell a (Suc i) (Suc j) then run a i j + 1 else 0)"

lemma cell_sym: "cell a i j = cell a j i"
  unfolding cell_def by auto

lemma cell_diag: "cell a i j \<Longrightarrow> cell a i i"
  unfolding cell_def by blast

lemma run_sym: "run a i j = run a j i"
proof (induction a i j rule: run.induct)
  case (1 a j)
  then show ?case using cell_sym[of a 0 j] by (cases j) auto
next
  case (2 a i)
  then show ?case using cell_sym[of a "Suc i" 0] by auto
next
  case (3 a i j)
  then show ?case using cell_sym[of a "Suc i" "Suc j"] by auto
qed

lemma run_le_diag: "run a i j \<le> run a i i"
proof (induction a i j rule: run.induct)
  case (1 a j)
  then show ?case using cell_diag[of a 0 j] by auto
next
  case (2 a i)
  then show ?case using cell_diag[of a "Suc i" 0] by auto
next
  case (3 a i j)
  then show ?case using cell_diag[of a "Suc i" "Suc j"] by auto
qed

lemma run_no_cell: "\<not> cell a i j \<Longrightarrow> run a i j = 0"
  by (cases i; cases j) auto

lemma run_step:
  "cell a i j \<Longrightarrow> run a i j = (if i = 0 \<or> j = 0 then 0 else run a (i - 1) (j - 1)) + 1"
  by (cases i; cases j) auto

lemma set_indices_from:
  "set (indices_from b n c) = {n + j | j. j < length b \<and> b ! j = c}"
proof (induction b arbitrary: n)
  case Nil
  then show ?case by simp
next
  case (Cons x xs)
  have "{n + j | j. j < length (x # xs) \<and> (x # xs) ! j = c}
      = (if x = c then {n} else {}) \<union> {Suc n + j | j. j < length xs \<and> xs ! j = c}"
  proof (rule set_eqI)
    fix m
    show "m \<in> {n + j | j. j < length (x # xs) \<and> (x # xs) ! j = c}
      \<longleftrightarrow> m \<in> (if x = c then {n} else {}) \<union> {Suc n + j | j. j < length xs \<and> xs ! j = c}"
    proof
      assume "m \<in> {n + j | j. j < length (x # xs) \<and> (x # xs) ! j = c}"
      then obtain j where j: "m = n + j" "j < length (x # xs)" "(x # xs) ! j = c" by auto
      show "m \<in> (if x = c then {n} else {}) \<union> {Suc n + j | j. j < length xs \<and> xs ! j = c}"
      proof (cases j)
        case 0
        then show ?thesis using j by auto
      next
        case (Suc j')
        then show ?thesis using j by auto
      qed
    next
      assume "m \<in> (if x = c then {n} else {}) \<union> {Suc n + j | j. j < length xs \<and> xs ! j = c}"
      then consider "x = c" "m = n" | j where "m = Suc n + j" "j < length xs" "xs ! j = c"
        by (auto split: if_splits)
      then show "m \<in> {n + j | j. j < length (x # xs) \<and> (x # xs) ! j = c}"
      proof cases
        case 1
        then have "m = n + 0 \<and> 0 < length (x # xs) \<and> (x # xs) ! 0 = c" by simp
        then show ?thesis by blast
      next
        case 2
        then have "m = n + Suc j \<and> Suc j < length (x # xs) \<and> (x # xs) ! Suc j = c" by simp
        then show ?thesis by blast
      qed
    qed
  qed
  then show ?case using Cons.IH[of "Suc n"] by auto
qed

lemma sorted_indices_from: "sorted_wrt (<) (indices_from b n c)"
proof (induction b arbitrary: n)
  case Nil
  then show ?case by simp
next
  case (Cons x xs)
  have "\<forall>m \<in> set (indices_from xs (Suc n) c). n < m"
    by (auto simp: set_indices_from)
  then show ?case using Cons.IH[of "Suc n"] by auto
qed

lemma set_b2j:
  "i < length a \<Longrightarrow> set (b2j a (a ! i)) = {j. j < length a \<and> cell a i j}"
  by (auto simp: b2j_def set_indices_from cell_def)

lemma sorted_b2j: "sorted_wrt (<) (b2j b c)"
  by (simp add: b2j_def sorted_indices_from)

text \<open>The loop invariants: \<^verbatim>\<open>j2len\<close> holds the runs of the previous row, the best
  match is on the diagonal and is at least as long as every run met so far.\<close>

definition row_repr :: "string \<Rightarrow> nat \<Rightarrow> (nat \<rightharpoonup> nat) \<Rightarrow> bool" where
  "row_repr a i j2len =
     (\<forall>j. j < length a \<longrightarrow>
        j2len_get j2len j = (if i = 0 \<or> j = 0 then 0 else run a (i - 1) (j - 1)))"

fun inner_inv :: "string \<Rightarrow> nat \<Rightarrow> nat list \<Rightarrow> (nat \<rightharpoonup> nat) \<times> match \<Rightarrow> bool" where
  "inner_inv a i ps (newj2len, besti, bestj, bestsize) =
     ((\<forall>j. newj2len j = (if j \<in> set ps then Some (run a i j) else None))
      \<and> besti = bestj
      \<and> (\<forall>j \<in> set ps. run a i j \<le> bestsize)
      \<and> (\<forall>i' j'. i' < i \<and> j' < length a \<longrightarrow> run a i' j' \<le> bestsize))"

lemma inner_loop_diag:
  assumes "i < length a" "row_repr a i j2len"
    and "sorted_wrt (<) (ps @ js)"
    and "set (ps @ js) = {j. j < length a \<and> cell a i j}"
    and "inner_inv a i ps (newj2len, best)"
  shows "inner_inv a i (ps @ js) (inner_loop i 0 (length a) j2len js (newj2len, best))"
  using assms(3-5)
proof (induction js arbitrary: ps newj2len best)
  case Nil
  then show ?case by simp
next
  case (Cons j js)
  obtain besti bestj bestsize where best: "best = (besti, bestj, bestsize)"
    by (cases best) auto
  have jn: "j < length a" and cj: "cell a i j"
    using Cons.prems(2) by auto
  define k where "k = j2len_get j2len j + 1"
  have k: "k = run a i j"
    using assms(2) jn run_step[OF cj] unfolding row_repr_def k_def by simp
  define best' where
    "best' = (if bestsize < k then (i + 1 - k, j + 1 - k, k) else (besti, bestj, bestsize))"
  have step: "inner_loop i 0 (length a) j2len (j # js) (newj2len, best)
      = inner_loop i 0 (length a) j2len js (newj2len(j \<mapsto> k), best')"
    using jn best by (cases "bestsize < k") (simp_all add: k_def best'_def Let_def)
  have inv: "inner_inv a i ps (newj2len, besti, bestj, bestsize)"
    using Cons.prems(3) best by simp
  have diag: "j = i" if big: "bestsize < k"
  proof (rule ccontr)
    assume ne: "j \<noteq> i"
    show False
    proof (cases "j < i")
      case True
      then have "run a j i \<le> bestsize" using inv assms(1) by simp
      then show False using big k run_sym[of a i j] by simp
    next
      case False
      then have ij: "i < j" using ne by simp
      have "i \<in> set (ps @ j # js)"
        using Cons.prems(2) assms(1) cell_diag[OF cj] by simp
      moreover have "\<forall>x \<in> set (j # js). j \<le> x"
        using Cons.prems(1) by (auto simp: sorted_wrt_append)
      ultimately have "i \<in> set ps" using ij by auto
      then have "run a i i \<le> bestsize" using inv by simp
      then show False using big k run_le_diag[of a i j] by simp
    qed
  qed
  have newd: "\<forall>j'. (newj2len(j \<mapsto> k)) j'
      = (if j' \<in> set (ps @ [j]) then Some (run a i j') else None)"
    using inv k by simp
  have inv': "inner_inv a i (ps @ [j]) (newj2len(j \<mapsto> k), best')"
  proof (cases "bestsize < k")
    case True
    then have b: "best' = (i + 1 - k, i + 1 - k, k)"
      using diag by (simp add: best'_def)
    have le: "bestsize \<le> k" using True by simp
    have p1: "\<forall>j' \<in> set (ps @ [j]). run a i j' \<le> k"
      using inv k le by (auto intro: order_trans[OF _ le])
    have p2: "\<forall>i' j'. i' < i \<and> j' < length a \<longrightarrow> run a i' j' \<le> k"
      using inv le by (auto intro: order_trans[OF _ le])
    show ?thesis unfolding b using newd p1 p2 by simp
  next
    case False
    then have b: "best' = (besti, bestj, bestsize)" by (simp add: best'_def)
    have p1: "\<forall>j' \<in> set (ps @ [j]). run a i j' \<le> bestsize"
      using inv k False by auto
    show ?thesis unfolding b using newd p1 inv by simp
  qed
  have "inner_inv a i ((ps @ [j]) @ js)
      (inner_loop i 0 (length a) j2len js (newj2len(j \<mapsto> k), best'))"
  proof (rule Cons.IH)
    show "sorted_wrt (<) ((ps @ [j]) @ js)" using Cons.prems(1) by simp
    show "set ((ps @ [j]) @ js) = {j. j < length a \<and> cell a i j}"
      using Cons.prems(2) by simp
    show "inner_inv a i (ps @ [j]) (newj2len(j \<mapsto> k), best')" by (rule inv')
  qed
  then show ?case unfolding step by simp
qed

lemma outer_loop_diag:
  assumes "i \<le> length a" "row_repr a i j2len" "besti = bestj"
    and "\<forall>i' j'. i' < i \<and> j' < length a \<longrightarrow> run a i' j' \<le> bestsize"
  shows "\<exists>d s. outer_loop a a i (length a) 0 (length a) (j2len, besti, bestj, bestsize) = (d, d, s)"
  using assms
proof (induction "length a - i" arbitrary: i j2len besti bestj bestsize)
  case 0
  then have "\<not> i < length a" by simp
  then show ?case using "0.prems"(3) by (subst outer_loop.simps) simp
next
  case (Suc m)
  then have lt: "i < length a" by simp
  obtain new d e s where r:
    "inner_loop i 0 (length a) j2len (b2j a (a ! i)) (Map.empty, besti, bestj, bestsize)
      = (new, d, e, s)"
    by (metis prod_cases4)
  have "inner_inv a i ([] @ b2j a (a ! i))
      (inner_loop i 0 (length a) j2len (b2j a (a ! i)) (Map.empty, besti, bestj, bestsize))"
    by (rule inner_loop_diag[OF lt Suc.prems(2)])
       (use Suc.prems set_b2j[OF lt] sorted_b2j in simp_all)
  then have inv: "inner_inv a i (b2j a (a ! i)) (new, d, e, s)"
    using r by simp
  have new: "\<And>j. new j = (if j < length a \<and> cell a i j then Some (run a i j) else None)"
    using inv set_b2j[OF lt] by simp
  have rr: "row_repr a (Suc i) new"
    unfolding row_repr_def
  proof (intro allI impI)
    fix j assume j: "j < length a"
    show "j2len_get new j = (if Suc i = 0 \<or> j = 0 then 0 else run a (Suc i - 1) (j - 1))"
    proof (cases "j = 0")
      case True
      then show ?thesis by (simp add: j2len_get_def)
    next
      case False
      then have "j - 1 < length a" using j by simp
      then show ?thesis using False new[of "j - 1"] run_no_cell[of a i "j - 1"]
        by (simp add: j2len_get_def)
    qed
  qed
  have bound: "\<forall>i' j'. i' < Suc i \<and> j' < length a \<longrightarrow> run a i' j' \<le> s"
  proof (intro allI impI)
    fix i' j' assume h: "i' < Suc i \<and> j' < length a"
    show "run a i' j' \<le> s"
    proof (cases "i' = i")
      case True
      show ?thesis
      proof (cases "cell a i j'")
        case True
        then have "j' \<in> set (b2j a (a ! i))" using h set_b2j[OF lt] by simp
        then show ?thesis using inv \<open>i' = i\<close> by simp
      next
        case False
        then show ?thesis using \<open>i' = i\<close> run_no_cell by simp
      qed
    next
      case False
      then have "i' < i" using h by simp
      then show ?thesis using inv h by simp
    qed
  qed
  have de: "d = e" using inv by simp
  have "\<exists>d' s'. outer_loop a a (Suc i) (length a) 0 (length a) (new, d, e, s) = (d', d', s')"
    by (rule Suc.hyps(1)) (use Suc.hyps(2) lt rr de bound in simp_all)
  then show ?case using lt r by (subst outer_loop.simps) simp
qed

lemma extend_left_diag: "extend_left a a 0 0 (d, d, s) = (0, 0, s + d)"
proof (induction d arbitrary: s)
  case 0
  then show ?case by (subst extend_left.simps) simp
next
  case (Suc d)
  then show ?case by (subst extend_left.simps) simp
qed

lemma extend_right_diag:
  "s \<le> n \<Longrightarrow> extend_right a a n n (0, 0, s) = (0, 0, n)"
proof (induction "n - s" arbitrary: s)
  case 0
  then show ?case by (subst extend_right.simps) simp
next
  case (Suc m)
  then have lt: "s < n" by simp
  have "extend_right a a n n (0, 0, s + 1) = (0, 0, n)"
    by (rule Suc.hyps(1)) (use Suc.hyps(2) lt in simp_all)
  then show ?case using lt by (subst extend_right.simps) simp
qed

lemma find_longest_match_same:
  "find_longest_match a a 0 (length a) 0 (length a) = (0, 0, length a)"
proof -
  have "row_repr a 0 Map.empty" by (simp add: row_repr_def j2len_get_def)
  then obtain d s where
    o: "outer_loop a a 0 (length a) 0 (length a) (Map.empty, 0, 0, 0) = (d, d, s)"
    using outer_loop_diag[of 0 a Map.empty 0 0 0] by auto
  have "best_ok 0 (length a) 0 (length a)
      (outer_loop a a 0 (length a) 0 (length a) (Map.empty, 0, 0, 0))"
    using outer_loop_bounds[where i=0 and alo=0 and blo=0 and ?j2len=Map.empty
        and best="(0, 0, 0)" and ahi="length a" and bhi="length a" and a=a and b=a]
    by (simp add: j2len_ok_empty max_def)
  then have "d + s \<le> length a" using o by auto
  then show ?thesis
    by (simp add: find_longest_match_def o extend_left_diag extend_right_diag add.commute)
qed

lemma ratio_same: "ratio a a = 1"
proof (cases "a = []")
  case True
  have "blocks_loop [] [] [(0, 0, 0, 0)] [] = []"
    using find_longest_match_same[of "[]"]
    by (subst blocks_loop.simps(2)) (simp add: blocks_loop.simps(1))
  then show ?thesis using True
    by (simp add: ratio_def matches_total calculate_ratio_def)
next
  case False
  have "blocks_loop a a [(0, length a, 0, length a)] [] = [(0, 0, length a)]"
    using False
    by (subst blocks_loop.simps(2)) (simp add: find_longest_match_same blocks_loop.simps(1))
  then have "sum_list (map match_size (get_matching_blocks a a)) = length a"
    by (simp add: matches_total)
  then show ?thesis using False float_div_self[of "2 * int (length a)"]
    by (simp add: ratio_def calculate_ratio_def)
qed

section \<open>Properties of the matcher\<close>

subsection \<open>Remaining rows\<close>

lemma normalize_team_names_map: "normalize_team_names df = map with_normalized_team df"
  by (cases df) (simp_all add: normalize_team_names_def)

lemma with_normalized_team_simps:
  "id_col (with_normalized_team r) = id_col r"
  "name_col (with_normalized_team r) = name_col r"
  "team_of (with_normalized_team r) = normalize_team_name (team_col r)"
  by (simp_all add: with_normalized_team_def team_of_def)

lemma set_remaining_fpl:
  "set (remaining_fpl ks fpl) = with_normalized_team ` {r \<in> set fpl. id_col r \<notin> set ks}"
  by (simp add: remaining_fpl_def normalize_team_names_map)

lemma set_remaining_understat:
  "set (remaining_understat mm us)
   = with_normalized_team ` {r \<in> set us. id_col r \<notin> snd ` set mm}"
  by (simp add: remaining_understat_def normalize_team_names_map)

lemma ids_remaining_fpl:
  "map id_col (remaining_fpl ks fpl) = filter (\<lambda>i. i \<notin> set ks) (map id_col fpl)"
  by (simp add: remaining_fpl_def normalize_team_names_map with_normalized_team_simps
      filter_map comp_def)

subsection \<open>The overlay and the manual pass\<close>

lemma int_keys_manual_pass:
  "int_keys mm = Inr ks \<Longrightarrow> \<exists>ms. manual_pass mm fpl us = Inr ms"
proof (induction mm arbitrary: ks)
  case Nil
  then show ?case by simp
next
  case (Cons kv mm)
  obtain k v where kv: "kv = (k, v)" by (cases kv) auto
  from Cons.prems obtain i ks' where i: "py_int k = Inr i" and ks': "int_keys mm = Inr ks'"
    by (auto simp: kv split: sum.splits)
  from Cons.IH[OF ks'] obtain ms where "manual_pass mm fpl us = Inr ms" by blast
  then show ?case using i by (auto simp: kv split: list.splits)
qed

lemma manual_pass_int_keys:
  "manual_pass mm fpl us = Inr ms \<Longrightarrow> \<exists>ks. int_keys mm = Inr ks"
proof (induction mm arbitrary: ms)
  case Nil
  then show ?case by simp
next
  case (Cons kv mm)
  obtain k v where kv: "kv = (k, v)" by (cases kv) auto
  from Cons.prems obtain i ms' where i: "py_int k = Inr i" and ms': "manual_pass mm fpl us = Inr ms'"
    by (auto simp: kv split: sum.splits)
  from Cons.IH[OF ms'] obtain ks where "int_keys mm = Inr ks" by blast
  then show ?case using i by (simp add: kv)
qed

lemma set_int_keys:
  "int_keys mm = Inr ks \<Longrightarrow> set ks = {i. \<exists>k v. (k, v) \<in> set mm \<and> py_int k = Inr i}"
proof (induction mm arbitrary: ks)
  case Nil
  then show ?case by simp
next
  case (Cons kv mm)
  obtain k v where kv: "kv = (k, v)" by (cases kv) auto
  from Cons.prems obtain i ks' where i: "py_int k = Inr i" and ks': "int_keys mm = Inr ks'"
    and ks: "ks = i # ks'"
    by (auto simp: kv split: sum.splits)
  show ?case unfolding ks using Cons.IH[OF ks'] i by (auto simp: kv)
qed

lemma int_keys_map:
  "int_keys mm = Inr ks \<Longrightarrow> map (\<lambda>kv. py_int (fst kv)) mm = map Inr ks"
proof (induction mm arbitrary: ks)
  case Nil
  then show ?case by simp
next
  case (Cons kv mm)
  obtain k v where kv: "kv = (k, v)" by (cases kv) auto
  from Cons.prems obtain i ks' where i: "py_int k = Inr i" and ks': "int_keys mm = Inr ks'"
    and ks: "ks = i # ks'"
    by (auto simp: kv split: sum.splits)
  show ?case unfolding ks using Cons.IH[OF ks'] i by (simp add: kv)
qed

lemma manual_pass_entries:
  assumes "manual_pass mm fpl us = Inr ms" "m \<in> set ms"
  shows "matching_type m = Manual \<and> similarity m = 1
    \<and> (\<exists>k. (k, understat_id m) \<in> set mm \<and> py_int k = Inr (fpl_id m))
    \<and> fpl_id m \<in> id_col ` set fpl \<and> understat_id m \<in> id_col ` set us"
  using assms
proof (induction mm arbitrary: ms)
  case Nil
  then show ?case by simp
next
  case (Cons kv mm)
  obtain k v where kv: "kv = (k, v)" by (cases kv) auto
  from Cons.prems(1) obtain i ms' where i: "py_int k = Inr i"
    and ms': "manual_pass mm fpl us = Inr ms'"
    by (auto simp: kv split: sum.splits)
  show ?case
  proof (cases "m \<in> set ms'")
    case True
    then show ?thesis using Cons.IH[OF ms'] by (auto simp: kv)
  next
    case False
    then obtain p ps u us' where p: "filter (\<lambda>r. id_col r = i) fpl = p # ps"
      and u: "filter (\<lambda>r. id_col r = v) us = u # us'"
      and m: "m = \<lparr>fpl_id = i, understat_id = v, fpl_name = name_col p,
                   understat_name = name_col u, matching_type = Manual, similarity = 1\<rparr>"
      using Cons.prems i ms' by (auto simp: kv split: list.splits)
    have "p \<in> set (filter (\<lambda>r. id_col r = i) fpl)" unfolding p by simp
    then have pi: "i \<in> id_col ` set fpl" by auto
    have "u \<in> set (filter (\<lambda>r. id_col r = v) us)" unfolding u by simp
    then have uv: "v \<in> id_col ` set us" by auto
    show ?thesis using m i pi uv by (auto simp: kv)
  qed
qed

lemma manual_pass_ids:
  assumes "manual_pass mm fpl us = Inr ms" "int_keys mm = Inr ks"
  shows "(\<forall>m \<in> set ms. fpl_id m \<in> set ks) \<and> (distinct ks \<longrightarrow> distinct (map fpl_id ms))"
  using assms
proof (induction mm arbitrary: ms ks)
  case Nil
  then show ?case by simp
next
  case (Cons kv mm)
  obtain k v where kv: "kv = (k, v)" by (cases kv) auto
  from Cons.prems(1) obtain i ms' where i: "py_int k = Inr i"
    and ms': "manual_pass mm fpl us = Inr ms'"
    by (auto simp: kv split: sum.splits)
  from Cons.prems(2) i obtain ks' where ks': "int_keys mm = Inr ks'" and ks: "ks = i # ks'"
    by (auto simp: kv split: sum.splits)
  have ih: "(\<forall>m \<in> set ms'. fpl_id m \<in> set ks') \<and> (distinct ks' \<longrightarrow> distinct (map fpl_id ms'))"
    by (rule Cons.IH[OF ms' ks'])
  have "ms = ms' \<or> (\<exists>m. fpl_id m = i \<and> ms = m # ms')"
    using Cons.prems(1) i ms' by (auto simp: kv split: list.splits)
  then show ?case
  proof
    assume "ms = ms'"
    then show ?thesis using ih unfolding ks by simp
  next
    assume "\<exists>m. fpl_id m = i \<and> ms = m # ms'"
    then obtain m where m: "fpl_id m = i" "ms = m # ms'" by blast
    have "distinct (i # ks') \<longrightarrow> i \<notin> fpl_id ` set ms'" using ih by auto
    then show ?thesis using ih m unfolding ks by simp
  qed
qed

subsection \<open>The automated pass\<close>

lemma best_scan_result:
  assumes "best_scan name cs (bm, bs) = (r, s)"
  shows "bs \<le> s \<and> (\<forall>c \<in> set cs. get_name_similarity name (name_col c) \<le> s)
     \<and> ((r = bm \<and> s = bs)
         \<or> (\<exists>c \<in> set cs. r = Some c \<and> s = get_name_similarity name (name_col c) \<and> bs < s))"
  using assms
proof (induction cs arbitrary: bm bs)
  case Nil
  then show ?case by simp
next
  case (Cons c cs)
  define sim where "sim = get_name_similarity name (name_col c)"
  show ?case
  proof (cases "bs < sim")
    case True
    then have "best_scan name cs (Some c, sim) = (r, s)"
      using Cons.prems by (simp add: sim_def)
    from Cons.IH[OF this] show ?thesis using True unfolding sim_def by auto
  next
    case False
    then have "best_scan name cs (bm, bs) = (r, s)"
      using Cons.prems by (simp add: sim_def)
    from Cons.IH[OF this] show ?thesis using False unfolding sim_def by auto
  qed
qed

lemma match_one_entry:
  assumes "m \<in> set (match_one p ru t)"
  shows "\<exists>u \<in> set (same_team_players ru (team_of p)).
     m = \<lparr>fpl_id = id_col p, understat_id = id_col u, fpl_name = name_col p,
          understat_name = name_col u, matching_type = Automated,
          similarity = get_name_similarity (name_col p) (name_col u)\<rparr>
     \<and> t \<le> get_name_similarity (name_col p) (name_col u)
     \<and> 0 < get_name_similarity (name_col p) (name_col u)
     \<and> (\<forall>u' \<in> set (same_team_players ru (team_of p)).
          get_name_similarity (name_col p) (name_col u')
            \<le> get_name_similarity (name_col p) (name_col u))"
proof -
  obtain r s where rs:
    "best_scan (name_col p) (same_team_players ru (team_of p)) (None, 0) = (r, s)"
    by (cases "best_scan (name_col p) (same_team_players ru (team_of p)) (None, 0)") auto
  from assms rs obtain u where r: "r = Some u" and ts: "t \<le> s"
    and m: "m = \<lparr>fpl_id = id_col p, understat_id = id_col u, fpl_name = name_col p,
          understat_name = name_col u, matching_type = Automated, similarity = s\<rparr>"
    by (auto simp: match_one_def split: option.splits if_splits)
  from best_scan_result[OF rs] r show ?thesis using ts m by auto
qed

lemma match_one_emits:
  assumes "c \<in> set (same_team_players ru (team_of p))"
    and "\<forall>c' \<in> set (same_team_players ru (team_of p)).
          get_name_similarity (name_col p) (name_col c')
            \<le> get_name_similarity (name_col p) (name_col c)"
    and "0 < get_name_similarity (name_col p) (name_col c)"
    and "t \<le> get_name_similarity (name_col p) (name_col c)"
  shows "\<exists>u \<in> set (same_team_players ru (team_of p)).
     get_name_similarity (name_col p) (name_col u) = get_name_similarity (name_col p) (name_col c)
     \<and> match_one p ru t =
        [\<lparr>fpl_id = id_col p, understat_id = id_col u, fpl_name = name_col p,
          understat_name = name_col u, matching_type = Automated,
          similarity = get_name_similarity (name_col p) (name_col c)\<rparr>]"
proof -
  obtain r s where rs:
    "best_scan (name_col p) (same_team_players ru (team_of p)) (None, 0) = (r, s)"
    by (cases "best_scan (name_col p) (same_team_players ru (team_of p)) (None, 0)") auto
  note res = best_scan_result[OF rs]
  have cs: "get_name_similarity (name_col p) (name_col c) \<le> s" using res assms(1) by blast
  then have "0 < s" using assms(3) by simp
  then obtain u where u: "u \<in> set (same_team_players ru (team_of p))" "r = Some u"
    "s = get_name_similarity (name_col p) (name_col u)"
    using res by auto
  have "s \<le> get_name_similarity (name_col p) (name_col c)" using assms(2) u by simp
  then have s: "s = get_name_similarity (name_col p) (name_col c)" using cs by simp
  show ?thesis using u s assms(4) rs by (auto simp: match_one_def)
qed

lemma match_one_none:
  assumes "\<forall>c \<in> set (same_team_players ru (team_of p)).
          get_name_similarity (name_col p) (name_col c) < t"
  shows "match_one p ru t = []"
proof (rule ccontr)
  assume "match_one p ru t \<noteq> []"
  then obtain m where "m \<in> set (match_one p ru t)" by (cases "match_one p ru t") auto
  from match_one_entry[OF this] show False using assms by fastforce
qed

lemma automated_pass_entry:
  "m \<in> set (automated_pass rf ru t) \<longleftrightarrow> (\<exists>p \<in> set rf. m \<in> set (match_one p ru t))"
  by (induction rf) auto

lemma match_one_ids: "m \<in> set (match_one p ru t) \<Longrightarrow> fpl_id m = id_col p"
  using match_one_entry by fastforce

lemma match_one_short: "length (match_one p ru t) \<le> 1"
  by (auto simp: match_one_def split: prod.splits option.splits)

lemma automated_pass_distinct:
  "distinct (map id_col rf) \<Longrightarrow> distinct (map fpl_id (automated_pass rf ru t))"
proof (induction rf)
  case Nil
  then show ?case by simp
next
  case (Cons p rf)
  have one: "distinct (map fpl_id (match_one p ru t))"
    using match_one_short[of p ru t] by (cases "match_one p ru t") auto
  have "\<forall>m \<in> set (match_one p ru t). \<forall>m' \<in> set (automated_pass rf ru t). fpl_id m \<noteq> fpl_id m'"
  proof (intro ballI)
    fix m m' assume m: "m \<in> set (match_one p ru t)" and m': "m' \<in> set (automated_pass rf ru t)"
    from m' obtain p' where p': "p' \<in> set rf" "m' \<in> set (match_one p' ru t)"
      by (auto simp: automated_pass_entry)
    have "fpl_id m = id_col p" "fpl_id m' = id_col p'"
      using match_one_ids[OF m] match_one_ids[OF p'(2)] by simp_all
    moreover have "id_col p \<noteq> id_col p'" using Cons.prems p'(1) by auto
    ultimately show "fpl_id m \<noteq> fpl_id m'" by simp
  qed
  then show ?case using Cons one by auto
qed


subsection \<open>What a returned table is made of\<close>

lemma map_players_Inr:
  assumes "map_players mm fpl us t = Inr ms"
  shows "((fpl = [] \<or> us = []) \<and> ms = [])
    \<or> (fpl \<noteq> [] \<and> us \<noteq> [] \<and> ms \<noteq> [] \<and> (\<exists>man ks. manual_pass mm fpl us = Inr man \<and> int_keys mm = Inr ks
          \<and> ms = man @ automated_pass (remaining_fpl ks fpl) (remaining_understat mm us) t))"
  using assms by (auto simp: map_players_def Let_def split: sum.splits if_splits)

lemma automated_entry_rows:
  assumes "map_players mm fpl us t = Inr ms" "m \<in> set ms" "matching_type m = Automated"
  shows "\<exists>ks. int_keys mm = Inr ks \<and> (\<exists>p \<in> set fpl. \<exists>u \<in> set us.
      id_col p \<notin> set ks \<and> id_col u \<notin> snd ` set mm
      \<and> fpl_id m = id_col p \<and> understat_id m = id_col u
      \<and> fpl_name m = name_col p \<and> understat_name m = name_col u
      \<and> py_eq (normalize_team_name (team_col u)) (normalize_team_name (team_col p)))"
proof -
  from map_players_Inr[OF assms(1)] assms(2)
  obtain man ks where man: "manual_pass mm fpl us = Inr man" and ks: "int_keys mm = Inr ks"
    and ms: "ms = man @ automated_pass (remaining_fpl ks fpl) (remaining_understat mm us) t"
    by auto
  have "m \<notin> set man" using manual_pass_entries[OF man] assms(3) by auto
  then have "m \<in> set (automated_pass (remaining_fpl ks fpl) (remaining_understat mm us) t)"
    using assms(2) ms by simp
  then obtain p' where p': "p' \<in> set (remaining_fpl ks fpl)"
    and m: "m \<in> set (match_one p' (remaining_understat mm us) t)"
    by (auto simp: automated_pass_entry)
  from match_one_entry[OF m]
  obtain u' where u': "u' \<in> set (remaining_understat mm us)" "py_eq (team_of u') (team_of p')"
    and me: "m = \<lparr>fpl_id = id_col p', understat_id = id_col u', fpl_name = name_col p',
          understat_name = name_col u', matching_type = Automated,
          similarity = get_name_similarity (name_col p') (name_col u')\<rparr>"
    by (auto simp: same_team_players_def)
  from p' obtain p where p: "p \<in> set fpl" "id_col p \<notin> set ks" "p' = with_normalized_team p"
    unfolding set_remaining_fpl by blast
  from u'(1) obtain u where u: "u \<in> set us" "id_col u \<notin> snd ` set mm" "u' = with_normalized_team u"
    unfolding set_remaining_understat by blast
  show ?thesis using ks p u u'(2) me
    by (auto simp: with_normalized_team_simps)
qed

lemma distinct_id_row:
  "distinct (map id_col xs) \<Longrightarrow> x \<in> set xs \<Longrightarrow> y \<in> set xs \<Longrightarrow> id_col x = id_col y \<Longrightarrow> x = y"
  by (meson distinct_map inj_onD)

lemma map_players_never_empty_table:
  "fpl \<noteq> [] \<Longrightarrow> us \<noteq> [] \<Longrightarrow> map_players mm fpl us t \<noteq> Inr []"
  by (auto simp: map_players_def Let_def split: sum.splits)

lemma match_one_none_or_zero:
  assumes "\<forall>c \<in> set (same_team_players ru (team_of p)).
          get_name_similarity (name_col p) (name_col c) < t
          \<or> get_name_similarity (name_col p) (name_col c) = 0"
  shows "match_one p ru t = []"
proof (rule ccontr)
  assume "match_one p ru t \<noteq> []"
  then obtain m where "m \<in> set (match_one p ru t)" by (cases "match_one p ru t") auto
  from match_one_entry[OF this]
  obtain u where u: "u \<in> set (same_team_players ru (team_of p))"
    "t \<le> get_name_similarity (name_col p) (name_col u)"
    "0 < get_name_similarity (name_col p) (name_col u)"
    by blast
  from assms u(1) have "get_name_similarity (name_col p) (name_col u) < t
          \<or> get_name_similarity (name_col p) (name_col u) = 0"
    by blast
  then show False using u(2,3) by auto
qed

lemma automated_entry_similarity:
  assumes "map_players mm fpl us t = Inr ms" "m \<in> set ms" "matching_type m = Automated"
  shows "0 < similarity m \<and> t \<le> similarity m
    \<and> similarity m = get_name_similarity (fpl_name m) (understat_name m)"
proof -
  from map_players_Inr[OF assms(1)] assms(2)
  obtain man ks where man: "manual_pass mm fpl us = Inr man"
    and ms: "ms = man @ automated_pass (remaining_fpl ks fpl) (remaining_understat mm us) t"
    by auto
  have "m \<notin> set man" using manual_pass_entries[OF man] assms(3) by auto
  then have "m \<in> set (automated_pass (remaining_fpl ks fpl) (remaining_understat mm us) t)"
    using assms(2) ms by simp
  then obtain p where "m \<in> set (match_one p (remaining_understat mm us) t)"
    by (auto simp: automated_pass_entry)
  from match_one_entry[OF this] show ?thesis by auto
qed

subsection \<open>The matcher after a load that left the mapping empty\<close>




section \<open>Properties of the team name normalizer\<close>

lemmas string_eval = py_lower_def py_lower_char_def is_upper_def py_strip_def is_space_def

text \<open>
  Claim C2 says that a team name that is not in the alias table passes through lower-cased.
  The code lower-cases the key of the lookup only and returns the cell itself when the key
  is absent: \<^verbatim>\<open>Spurs\<close> keeps its capital, while \<^verbatim>\<open>Tottenham Hotspur\<close> becomes
  \<^verbatim>\<open>spurs\<close>. The two normalized teams differ, so on the specification's first
  end-to-end example (Harry Kane at \<^verbatim>\<open>Tottenham Hotspur\<close> and at \<^verbatim>\<open>Spurs\<close>, names of
  similarity 1) there is no candidate, and \<^verbatim>\<open>map_players\<close> ends in the \<^verbatim>\<open>KeyError\<close>
  of an empty list of entries.
\<close>

theorem spurs_keeps_its_capital:
  "map_of team_mapping (py_lower ''Spurs'') = None
   \<and> normalize_team_name (PStr ''Spurs'') = PStr ''Spurs''
   \<and> spec_normalize ''Spurs'' = ''spurs''
   \<and> normalize_team_name (PStr ''Spurs'') \<noteq> PStr (py_lower ''Spurs'')
   \<and> normalize_team_name (PStr ''Tottenham Hotspur'') = PStr ''spurs''
   \<and> \<not> py_eq (normalize_team_name (PStr ''Spurs''))
             (normalize_team_name (PStr ''Tottenham Hotspur''))
   \<and> get_name_similarity (name_col (kane_fpl ! 0)) (name_col (kane_understat ! 0)) = 1
   \<and> same_team_players (remaining_understat [] kane_understat)
        (normalize_team_name (team_col (kane_fpl ! 0))) = []
   \<and> map_players [] kane_fpl kane_understat default_threshold = Inl KeyError"
proof -
  have a: "map_of team_mapping (py_lower ''Spurs'') = None"
    "normalize_team_name (PStr ''Spurs'') = PStr ''Spurs''"
    "spec_normalize ''Spurs'' = ''spurs''"
    "normalize_team_name (PStr ''Tottenham Hotspur'') = PStr ''spurs''"
    by (simp_all add: normalize_team_name_def spec_normalize_def team_mapping_def string_eval)
  have b: "normalize_team_name (PStr ''Spurs'') \<noteq> PStr (py_lower ''Spurs'')"
    unfolding a by (simp add: string_eval)
  have c: "\<not> py_eq (normalize_team_name (PStr ''Spurs''))
             (normalize_team_name (PStr ''Tottenham Hotspur''))"
    unfolding a by simp
  have d: "get_name_similarity (name_col (kane_fpl ! 0)) (name_col (kane_understat ! 0)) = 1"
    by code_simp
  have e: "same_team_players (remaining_understat [] kane_understat)
        (normalize_team_name (team_col (kane_fpl ! 0))) = []"
    by code_simp
  have f: "map_players [] kane_fpl kane_understat default_threshold = Inl KeyError"
    by code_simp
  show ?thesis using a b c d e f by simp
qed

section \<open>Properties of the name similarity scorer\<close>

text \<open>
  Claim C8. For all inputs, strings or not, the similarity is a number between 0 and 1; it is
  1 when the two names are equal after \<^verbatim>\<open>str\<close>, lower-casing and stripping, and 0 when
  they then have no character in common (and are not both empty, in which case they are
  equal). The scorer is a function of its two arguments alone.
\<close>

theorem name_similarity_range:
  "0 \<le> get_name_similarity x y \<and> get_name_similarity x y \<le> 1
   \<and> (clean_name x = clean_name y \<longrightarrow> get_name_similarity x y = 1)
   \<and> (set (clean_name x) \<inter> set (clean_name y) = {} \<and> (clean_name x \<noteq> [] \<or> clean_name y \<noteq> [])
        \<longrightarrow> get_name_similarity x y = 0)"
  unfolding get_name_similarity_def
  using ratio_unit[of "clean_name x" "clean_name y"] ratio_same[of "clean_name x"]
    ratio_disjoint[of "clean_name x" "clean_name y"]
  by auto

text \<open>A name with capitals and blanks, and the non-string inputs \<^verbatim>\<open>None\<close>, 42 and nan,
  which are compared as \<^verbatim>\<open>none\<close>, \<^verbatim>\<open>42\<close> and \<^verbatim>\<open>nan\<close>.\<close>

theorem name_similarity_range_witness:
  "clean_name (PStr '' Harry KANE '') = clean_name (PStr ''harry kane'')
   \<and> get_name_similarity (PStr '' Harry KANE '') (PStr ''harry kane'') = 1
   \<and> clean_name PNone = ''none'' \<and> clean_name (PInt 42) = ''42''
   \<and> set (clean_name PNone) \<inter> set (clean_name (PInt 42)) = {}
   \<and> get_name_similarity PNone (PInt 42) = 0
   \<and> 0 \<le> get_name_similarity PNaN (PStr ''Nani'') \<and> get_name_similarity PNaN (PStr ''Nani'') \<le> 1"
proof -
  have a: "clean_name (PStr '' Harry KANE '') = clean_name (PStr ''harry kane'')" by code_simp
  have b: "clean_name PNone = ''none''" "clean_name (PInt 42) = ''42''" by code_simp+
  have c: "set (clean_name PNone) \<inter> set (clean_name (PInt 42)) = {}" unfolding b by simp
  have d: "clean_name PNone \<noteq> [] \<or> clean_name (PInt 42) \<noteq> []" unfolding b by simp
  show ?thesis
    using name_similarity_range[of "PStr '' Harry KANE ''" "PStr ''harry kane''"]
      name_similarity_range[of PNone "PInt 42"]
      name_similarity_range[of PNaN "PStr ''Nani''"] a b c d
    by simp
qed

section \<open>Properties of the manual mapping store\<close>

lemma kane_twice_run:
  "map_players [] spurs_fpl spurs_understat default_threshold = Inr kane_twice"
  by code_simp





section \<open>Properties of the player matcher\<close>

text \<open>A run with one manual pair: the first Harry Kane is paired by hand with \<^verbatim>\<open>u1\<close>, so
  the second one, whose name equals that of \<^verbatim>\<open>u1\<close>, can only take \<^verbatim>\<open>u2\<close>.\<close>

lemma spurs_run:
  "map_players [(''1'', ''u1'')] spurs_fpl spurs_understat default_threshold = Inr spurs_result"
  by code_simp

text \<open>
  Claim C4. Whenever \<^verbatim>\<open>map_players\<close> returns a table, no automated entry of it carries a
  secondary id that is a value of the manual overlay: such rows are removed from the
  candidate pool before the automated pass, whatever their similarity to a primary row.
\<close>

theorem manual_secondary_excluded:
  assumes "map_players mm fpl us t = Inr ms" "m \<in> set ms" "matching_type m = Automated"
  shows "understat_id m \<notin> snd ` set mm"
proof -
  from map_players_Inr[OF assms(1)] assms(2)
  obtain man ks where man: "manual_pass mm fpl us = Inr man"
    and ms: "ms = man @ automated_pass (remaining_fpl ks fpl) (remaining_understat mm us) t"
    by auto
  have "m \<notin> set man" using manual_pass_entries[OF man] assms(3) by auto
  then have "m \<in> set (automated_pass (remaining_fpl ks fpl) (remaining_understat mm us) t)"
    using assms(2) ms by simp
  then obtain p where "m \<in> set (match_one p (remaining_understat mm us) t)"
    by (auto simp: automated_pass_entry)
  from match_one_entry[OF this]
  obtain u where "u \<in> set (remaining_understat mm us)" "understat_id m = id_col u"
    by (auto simp: same_team_players_def)
  moreover from this obtain u0 where "u = with_normalized_team u0" "id_col u0 \<notin> snd ` set mm"
    unfolding set_remaining_understat by blast
  ultimately show ?thesis by (simp add: with_normalized_team_simps)
qed

text \<open>In the run above the automated entry carries \<^verbatim>\<open>u2\<close>, although \<^verbatim>\<open>u1\<close> has the
  very name of the second primary row.\<close>

theorem manual_secondary_excluded_witness:
  "map_players [(''1'', ''u1'')] spurs_fpl spurs_understat default_threshold = Inr spurs_result
   \<and> spurs_result ! 1 \<in> set spurs_result
   \<and> matching_type (spurs_result ! 1) = Automated
   \<and> understat_id (spurs_result ! 1) \<notin> snd ` set [(''1'', ''u1'')]"
proof -
  have a: "spurs_result ! 1 \<in> set spurs_result" by (simp add: spurs_result_def)
  have b: "matching_type (spurs_result ! 1) = Automated" by (simp add: spurs_result_def)
  show ?thesis using manual_secondary_excluded[OF spurs_run a b] spurs_run a b by simp
qed

text \<open>
  Claim C5, as the code has it. When the ids of the primary table are pairwise distinct and
  the keys of the overlay denote pairwise distinct integers (as the keys written by
  \<^verbatim>\<open>add_manual_mapping\<close> do), no primary id occurs in two entries of a returned table.
\<close>

theorem primary_ids_exclusive:
  assumes "distinct (map id_col fpl)"
    and "distinct (map (\<lambda>kv. py_int (fst kv)) mm)"
    and "map_players mm fpl us t = Inr ms"
  shows "distinct (map fpl_id ms)"
proof -
  from map_players_Inr[OF assms(3)]
  consider "ms = []"
    | man ks where "manual_pass mm fpl us = Inr man" "int_keys mm = Inr ks"
        "ms = man @ automated_pass (remaining_fpl ks fpl) (remaining_understat mm us) t"
    by auto
  then show ?thesis
  proof cases
    case 1
    then show ?thesis by simp
  next
    case 2
    have "distinct (map Inr ks :: (py_error + int) list)"
      using assms(2) int_keys_map[OF 2(2)] by simp
    then have dk: "distinct ks" by (simp add: distinct_map)
    have man: "(\<forall>m \<in> set man. fpl_id m \<in> set ks)" "distinct (map fpl_id man)"
      using manual_pass_ids[OF 2(1) 2(2)] dk by auto
    have "distinct (map id_col (remaining_fpl ks fpl))"
      unfolding ids_remaining_fpl using assms(1) by (rule distinct_filter)
    then have auto_d: "distinct (map fpl_id
        (automated_pass (remaining_fpl ks fpl) (remaining_understat mm us) t))"
      by (rule automated_pass_distinct)
    have auto_ids: "\<forall>m \<in> set (automated_pass (remaining_fpl ks fpl) (remaining_understat mm us) t).
        fpl_id m \<notin> set ks"
    proof
      fix m assume "m \<in> set (automated_pass (remaining_fpl ks fpl) (remaining_understat mm us) t)"
      then obtain p where p: "p \<in> set (remaining_fpl ks fpl)"
        and m: "m \<in> set (match_one p (remaining_understat mm us) t)"
        by (auto simp: automated_pass_entry)
      have "id_col p \<notin> set ks"
        using p unfolding set_remaining_fpl by (auto simp: with_normalized_team_simps)
      then show "fpl_id m \<notin> set ks" using match_one_ids[OF m] by simp
    qed
    show ?thesis unfolding 2(3) using man auto_d auto_ids by auto
  qed
qed

theorem primary_ids_exclusive_witness:
  "distinct (map id_col spurs_fpl)
   \<and> distinct (map (\<lambda>kv. py_int (fst kv)) [(''1'', ''u1'')])
   \<and> map_players [(''1'', ''u1'')] spurs_fpl spurs_understat default_threshold = Inr spurs_result
   \<and> distinct (map fpl_id spurs_result)"
proof -
  have a: "distinct (map id_col spurs_fpl)" by (simp add: spurs_fpl_def mk_row_def)
  have b: "distinct (map (\<lambda>kv. py_int (fst kv)) [(''1'', ''u1'')])" by simp
  show ?thesis using primary_ids_exclusive[OF a b spurs_run] a b spurs_run by simp
qed

text \<open>
  Claim C5, as stated for every overlay, fails: the keys \<^verbatim>\<open>1\<close> and \<^verbatim>\<open>01\<close> are
  different strings and \<^verbatim>\<open>int\<close> maps both to 1, so the manual pass emits two entries
  for the primary id 1, although the ids of both tables are pairwise distinct.
\<close>

theorem primary_id_twice:
  "distinct (map id_col spurs_fpl) \<and> distinct (map id_col spurs_understat)
   \<and> map_players [(''1'', ''u1''), (''01'', ''u2'')] spurs_fpl spurs_understat default_threshold
       = Inr dup_key_result
   \<and> \<not> distinct (map fpl_id dup_key_result)"
proof -
  have "map_players [(''1'', ''u1''), (''01'', ''u2'')] spurs_fpl spurs_understat default_threshold
       = Inr dup_key_result"
    by code_simp
  then show ?thesis
    by (simp add: spurs_fpl_def spurs_understat_def mk_row_def dup_key_result_def)
qed

text \<open>
  Claim C6. Every automated entry of a returned table pairs a primary row and a secondary row
  whose normalized teams are equal; so, ids being unique in each table, two players whose
  normalized teams differ are never paired by the automated pass, whatever their names.
\<close>

theorem team_isolation:
  assumes "map_players mm fpl us t = Inr ms"
  shows "(\<forall>m \<in> set ms. matching_type m = Automated \<longrightarrow>
           (\<exists>p \<in> set fpl. \<exists>u \<in> set us.
              fpl_id m = id_col p \<and> understat_id m = id_col u
              \<and> fpl_name m = name_col p \<and> understat_name m = name_col u
              \<and> py_eq (normalize_team_name (team_col u)) (normalize_team_name (team_col p))))
    \<and> (distinct (map id_col fpl) \<and> distinct (map id_col us) \<longrightarrow>
         (\<forall>p \<in> set fpl. \<forall>u \<in> set us.
            \<not> py_eq (normalize_team_name (team_col u)) (normalize_team_name (team_col p)) \<longrightarrow>
            (\<forall>m \<in> set ms. matching_type m = Automated \<longrightarrow>
               \<not> (fpl_id m = id_col p \<and> understat_id m = id_col u))))"
proof (intro conjI ballI impI)
  fix m assume "m \<in> set ms" "matching_type m = Automated"
  from automated_entry_rows[OF assms this]
  show "\<exists>p \<in> set fpl. \<exists>u \<in> set us.
              fpl_id m = id_col p \<and> understat_id m = id_col u
              \<and> fpl_name m = name_col p \<and> understat_name m = name_col u
              \<and> py_eq (normalize_team_name (team_col u)) (normalize_team_name (team_col p))"
    by blast
next
  fix p u m
  assume d: "distinct (map id_col fpl) \<and> distinct (map id_col us)"
    and p: "p \<in> set fpl" and u: "u \<in> set us"
    and ne: "\<not> py_eq (normalize_team_name (team_col u)) (normalize_team_name (team_col p))"
    and m: "m \<in> set ms" "matching_type m = Automated"
  show "\<not> (fpl_id m = id_col p \<and> understat_id m = id_col u)"
  proof
    assume eq: "fpl_id m = id_col p \<and> understat_id m = id_col u"
    from automated_entry_rows[OF assms m]
    obtain p' u' where p': "p' \<in> set fpl" "fpl_id m = id_col p'"
      and u': "u' \<in> set us" "understat_id m = id_col u'"
      and t: "py_eq (normalize_team_name (team_col u')) (normalize_team_name (team_col p'))"
      by blast
    have "p' = p" using distinct_id_row[of fpl p' p] d p p' eq by simp
    moreover have "u' = u" using distinct_id_row[of us u' u] d u u' eq by simp
    ultimately show False using t ne by simp
  qed
qed

text \<open>Two primary rows named Harry Kane, one at Tottenham and one at Arsenal, and a
  secondary Harry Kane at Tottenham Hotspur: only the first is paired.\<close>

lemma two_clubs_run:
  "map_players [] two_clubs_fpl spurs_understat default_threshold = Inr two_clubs_result"
  by code_simp

theorem team_isolation_witness:
  "map_players [] two_clubs_fpl spurs_understat default_threshold = Inr two_clubs_result
   \<and> distinct (map id_col two_clubs_fpl) \<and> distinct (map id_col spurs_understat)
   \<and> two_clubs_fpl ! 1 \<in> set two_clubs_fpl \<and> spurs_understat ! 0 \<in> set spurs_understat
   \<and> name_col (two_clubs_fpl ! 1) = name_col (spurs_understat ! 0)
   \<and> \<not> py_eq (normalize_team_name (team_col (spurs_understat ! 0)))
             (normalize_team_name (team_col (two_clubs_fpl ! 1)))
   \<and> two_clubs_result ! 0 \<in> set two_clubs_result
   \<and> matching_type (two_clubs_result ! 0) = Automated
   \<and> fpl_id (two_clubs_result ! 0) = id_col (two_clubs_fpl ! 0)
   \<and> py_eq (normalize_team_name (team_col (spurs_understat ! 0)))
           (normalize_team_name (team_col (two_clubs_fpl ! 0)))
   \<and> \<not> (fpl_id (two_clubs_result ! 0) = id_col (two_clubs_fpl ! 1)
          \<and> understat_id (two_clubs_result ! 0) = id_col (spurs_understat ! 0))"
proof -
  have d: "distinct (map id_col two_clubs_fpl) \<and> distinct (map id_col spurs_understat)"
    by (simp add: two_clubs_fpl_def spurs_understat_def mk_row_def)
  have p: "two_clubs_fpl ! 1 \<in> set two_clubs_fpl" by (simp add: two_clubs_fpl_def)
  have u: "spurs_understat ! 0 \<in> set spurs_understat" by (simp add: spurs_understat_def)
  have ne: "\<not> py_eq (normalize_team_name (team_col (spurs_understat ! 0)))
             (normalize_team_name (team_col (two_clubs_fpl ! 1)))"
    by (simp add: two_clubs_fpl_def spurs_understat_def mk_row_def normalize_team_name_def
        team_mapping_def string_eval)
  have eq: "py_eq (normalize_team_name (team_col (spurs_understat ! 0)))
           (normalize_team_name (team_col (two_clubs_fpl ! 0)))"
    by (simp add: two_clubs_fpl_def spurs_understat_def mk_row_def normalize_team_name_def
        team_mapping_def string_eval)
  have m: "two_clubs_result ! 0 \<in> set two_clubs_result"
    "matching_type (two_clubs_result ! 0) = Automated"
    by (simp_all add: two_clubs_result_def)
  have nm: "name_col (two_clubs_fpl ! 1) = name_col (spurs_understat ! 0)"
    "fpl_id (two_clubs_result ! 0) = id_col (two_clubs_fpl ! 0)"
    by (simp_all add: two_clubs_fpl_def spurs_understat_def mk_row_def two_clubs_result_def)
  from team_isolation[OF two_clubs_run] d p u ne m
  have "\<not> (fpl_id (two_clubs_result ! 0) = id_col (two_clubs_fpl ! 1)
          \<and> understat_id (two_clubs_result ! 0) = id_col (spurs_understat ! 0))"
    by blast
  then show ?thesis using two_clubs_run d p u ne m eq nm by simp
qed

text \<open>
  Claim C10. A primary row whose id is a key of the overlay, all of whose overlay pairs are
  stale (the secondary id is in no secondary row), has no entry in a returned table and is
  among the rows exported as unmatched. And a secondary id that is a value of the overlay is
  in no row of the candidate pool and in no automated entry, whether or not the key paired
  with it is the id of a primary row.
\<close>

theorem stale_overlay_pair:
  assumes "map_players mm fpl us t = Inr ms"
  shows "(\<forall>p \<in> set fpl.
            (\<exists>k v. (k, v) \<in> set mm \<and> py_int k = Inr (id_col p))
            \<and> (\<forall>(k, v) \<in> set mm. py_int k = Inr (id_col p) \<longrightarrow> v \<notin> id_col ` set us)
            \<longrightarrow> id_col p \<notin> fpl_id ` set ms \<and> p \<in> set (export_missing_mappings fpl ms))
    \<and> (\<forall>(k, v) \<in> set mm.
            (\<forall>u \<in> set (remaining_understat mm us). id_col u \<noteq> v)
            \<and> (\<forall>m \<in> set ms. matching_type m = Automated \<longrightarrow> understat_id m \<noteq> v))"
proof (rule conjI)
 show "\<forall>p \<in> set fpl.
            (\<exists>k v. (k, v) \<in> set mm \<and> py_int k = Inr (id_col p))
            \<and> (\<forall>(k, v) \<in> set mm. py_int k = Inr (id_col p) \<longrightarrow> v \<notin> id_col ` set us)
            \<longrightarrow> id_col p \<notin> fpl_id ` set ms \<and> p \<in> set (export_missing_mappings fpl ms)"
 proof (intro ballI impI)
  fix p
  assume p: "p \<in> set fpl"
    and h: "(\<exists>k v. (k, v) \<in> set mm \<and> py_int k = Inr (id_col p))
            \<and> (\<forall>(k, v) \<in> set mm. py_int k = Inr (id_col p) \<longrightarrow> v \<notin> id_col ` set us)"
  have no: "fpl_id m \<noteq> id_col p" if m: "m \<in> set ms" for m
  proof -
    from map_players_Inr[OF assms] m
    obtain man ks where man: "manual_pass mm fpl us = Inr man" and ks: "int_keys mm = Inr ks"
      and ms: "ms = man @ automated_pass (remaining_fpl ks fpl) (remaining_understat mm us) t"
      by auto
    show ?thesis
    proof (cases "m \<in> set man")
      case True
      from manual_pass_entries[OF man True]
      obtain k where "(k, understat_id m) \<in> set mm" "py_int k = Inr (fpl_id m)"
        "understat_id m \<in> id_col ` set us"
        by blast
      then show ?thesis using h by fastforce
    next
      case False
      then have "m \<in> set (automated_pass (remaining_fpl ks fpl) (remaining_understat mm us) t)"
        using m ms by simp
      then obtain p' where p': "p' \<in> set (remaining_fpl ks fpl)"
        and m': "m \<in> set (match_one p' (remaining_understat mm us) t)"
        by (auto simp: automated_pass_entry)
      have "id_col p' \<notin> set ks"
        using p' unfolding set_remaining_fpl by (auto simp: with_normalized_team_simps)
      moreover have "id_col p \<in> set ks" using h unfolding set_int_keys[OF ks] by blast
      ultimately show ?thesis using match_one_ids[OF m'] by auto
    qed
  qed
  then have a: "id_col p \<notin> fpl_id ` set ms" by force
  moreover have "p \<in> set (export_missing_mappings fpl ms)"
    using p a by (auto simp: export_missing_mappings_def)
  ultimately show "id_col p \<notin> fpl_id ` set ms \<and> p \<in> set (export_missing_mappings fpl ms)"
    by simp
 qed
next
 show "\<forall>(k, v) \<in> set mm.
            (\<forall>u \<in> set (remaining_understat mm us). id_col u \<noteq> v)
            \<and> (\<forall>m \<in> set ms. matching_type m = Automated \<longrightarrow> understat_id m \<noteq> v)"
 proof (rule ballI)
  fix kv
  assume kv: "kv \<in> set mm"
  obtain k v where e: "kv = (k, v)" by (cases kv) auto
  have v: "v \<in> snd ` set mm" using kv e by force
  have pool: "\<forall>u \<in> set (remaining_understat mm us). id_col u \<noteq> v"
  proof
    fix u assume "u \<in> set (remaining_understat mm us)"
    then obtain u0 where "u = with_normalized_team u0" "id_col u0 \<notin> snd ` set mm"
      unfolding set_remaining_understat by blast
    then show "id_col u \<noteq> v" using v by (auto simp: with_normalized_team_simps)
  qed
  have ent: "\<forall>m \<in> set ms. matching_type m = Automated \<longrightarrow> understat_id m \<noteq> v"
  proof (intro ballI impI)
    fix m assume "m \<in> set ms" "matching_type m = Automated"
    from automated_entry_rows[OF assms this]
    obtain u :: "string row" where "id_col u \<notin> snd ` set mm" "understat_id m = id_col u"
      by blast
    then have "understat_id m \<notin> snd ` set mm" by simp
    then show "understat_id m \<noteq> v" using v by metis
  qed
  show "case kv of (k, v) \<Rightarrow>
          (\<forall>u \<in> set (remaining_understat mm us). id_col u \<noteq> v)
          \<and> (\<forall>m \<in> set ms. matching_type m = Automated \<longrightarrow> understat_id m \<noteq> v)"
    using pool ent by (simp add: e)
 qed
qed

text \<open>The first Harry Kane is keyed to a secondary id that does not exist, and \<^verbatim>\<open>u1\<close> is
  the value of a key that is no primary id: the first row stays unmatched and the second
  row has to take \<^verbatim>\<open>u2\<close>.\<close>

lemma stale_run:
  "map_players stale_overlay spurs_fpl spurs_understat default_threshold = Inr stale_result"
  by code_simp

theorem stale_overlay_pair_witness:
  "map_players stale_overlay spurs_fpl spurs_understat default_threshold = Inr stale_result
   \<and> spurs_fpl ! 0 \<in> set spurs_fpl
   \<and> (''1'', ''gone'') \<in> set stale_overlay \<and> py_int ''1'' = Inr (id_col (spurs_fpl ! 0))
   \<and> ''gone'' \<notin> id_col ` set spurs_understat
   \<and> id_col (spurs_fpl ! 0) \<notin> fpl_id ` set stale_result
   \<and> spurs_fpl ! 0 \<in> set (export_missing_mappings spurs_fpl stale_result)
   \<and> (''99'', ''u1'') \<in> set stale_overlay \<and> py_int ''99'' = Inr 99
   \<and> 99 \<notin> id_col ` set spurs_fpl
   \<and> ''u1'' \<in> id_col ` set spurs_understat
   \<and> ''u1'' \<notin> id_col ` set (remaining_understat stale_overlay spurs_understat)
   \<and> stale_result ! 0 \<in> set stale_result \<and> matching_type (stale_result ! 0) = Automated
   \<and> understat_id (stale_result ! 0) \<noteq> ''u1''"
proof -
  have p: "spurs_fpl ! 0 \<in> set spurs_fpl" by (simp add: spurs_fpl_def)
  have k1: "(''1'', ''gone'') \<in> set stale_overlay" "(''99'', ''u1'') \<in> set stale_overlay"
    by (simp_all add: stale_overlay_def)
  have i1: "py_int ''1'' = Inr (id_col (spurs_fpl ! 0))" by code_simp
  have i2: "py_int ''99'' = Inr 99" by code_simp
  have st: "\<forall>(k, v) \<in> set stale_overlay.
      py_int k = Inr (id_col (spurs_fpl ! 0)) \<longrightarrow> v \<notin> id_col ` set spurs_understat"
    by code_simp
  have g: "''gone'' \<notin> id_col ` set spurs_understat" "99 \<notin> id_col ` set spurs_fpl"
    "''u1'' \<in> id_col ` set spurs_understat"
    by (simp_all add: spurs_understat_def spurs_fpl_def mk_row_def)
  have m: "stale_result ! 0 \<in> set stale_result" "matching_type (stale_result ! 0) = Automated"
    by (simp_all add: stale_result_def)
  note fact = stale_overlay_pair[OF stale_run]
  from fact p k1(1) i1 st
  have a: "id_col (spurs_fpl ! 0) \<notin> fpl_id ` set stale_result
      \<and> spurs_fpl ! 0 \<in> set (export_missing_mappings spurs_fpl stale_result)"
    by blast
  from fact k1(2)
  have b: "(\<forall>u \<in> set (remaining_understat stale_overlay spurs_understat). id_col u \<noteq> ''u1'')
      \<and> (\<forall>m \<in> set stale_result. matching_type m = Automated \<longrightarrow> understat_id m \<noteq> ''u1'')"
    by fast
  then have c: "''u1'' \<notin> id_col ` set (remaining_understat stale_overlay spurs_understat)"
    "understat_id (stale_result ! 0) \<noteq> ''u1''"
    using m by auto
  show ?thesis using stale_run p k1 i1 i2 g a c m by simp
qed

text \<open>
  Claim C3, as the code has it. Let \<open>p\<close> be a primary row that is no key of the overlay, and
  \<open>cands\<close> its same-team candidates. If a candidate has the highest similarity among them,
  and that similarity is positive and exactly equal to the threshold, then \<^verbatim>\<open>map_players\<close>
  returns a table with an automated entry for \<open>p\<close> of that similarity, carrying a candidate
  of that similarity (acceptance is by \<open>\<ge>\<close>). If every candidate is strictly below the
  threshold or of similarity 0, then no automated entry of a returned table pairs the name
  of \<open>p\<close> with the name of a candidate, and, primary ids being unique, \<open>p\<close> has no entry
  at all and is exported as unmatched. Every automated entry of a returned table has a
  similarity that is positive and at least the threshold, and that is the similarity of the
  two names it carries: a candidate of similarity 0 is never selected
  (\<^verbatim>\<open>best_similarity\<close> starts at 0 and is replaced on \<^verbatim>\<open>>\<close> only).
\<close>

theorem threshold_boundary:
  assumes "int_keys mm = Inr ks" "p \<in> set fpl" "id_col p \<notin> set ks"
    and "cands = same_team_players (remaining_understat mm us) (normalize_team_name (team_col p))"
  shows "(\<forall>c \<in> set cands.
            (\<forall>c' \<in> set cands. get_name_similarity (name_col p) (name_col c')
                                  \<le> get_name_similarity (name_col p) (name_col c))
            \<and> get_name_similarity (name_col p) (name_col c) = t \<and> 0 < t
            \<longrightarrow> (\<exists>ms. map_players mm fpl us t = Inr ms
                  \<and> (\<exists>m \<in> set ms. matching_type m = Automated \<and> fpl_id m = id_col p
                        \<and> fpl_name m = name_col p \<and> similarity m = t
                        \<and> (\<exists>u \<in> set cands. understat_id m = id_col u
                              \<and> understat_name m = name_col u
                              \<and> get_name_similarity (name_col p) (name_col u) = t))))
    \<and> ((\<forall>c \<in> set cands. get_name_similarity (name_col p) (name_col c) < t
                          \<or> get_name_similarity (name_col p) (name_col c) = 0)
         \<longrightarrow> (\<forall>ms. map_players mm fpl us t = Inr ms
               \<longrightarrow> (\<forall>m \<in> set ms. matching_type m = Automated \<longrightarrow>
                       \<not> (fpl_name m = name_col p
                          \<and> (\<exists>u \<in> set cands. understat_name m = name_col u)))
                   \<and> (distinct (map id_col fpl) \<longrightarrow>
                        id_col p \<notin> fpl_id ` set ms
                        \<and> p \<in> set (export_missing_mappings fpl ms))))
    \<and> (\<forall>ms. map_players mm fpl us t = Inr ms
           \<longrightarrow> (\<forall>m \<in> set ms. matching_type m = Automated \<longrightarrow>
                   0 < similarity m \<and> t \<le> similarity m
                   \<and> similarity m = get_name_similarity (fpl_name m) (understat_name m)))"
proof (intro conjI)

  define p' where "p' = with_normalized_team p"
  define ru where "ru = remaining_understat mm us"
  have p'_in: "p' \<in> set (remaining_fpl ks fpl)"
    unfolding set_remaining_fpl p'_def using assms(2,3) by blast
  have p'_simps: "id_col p' = id_col p" "name_col p' = name_col p"
    "team_of p' = normalize_team_name (team_col p)"
    by (simp_all add: p'_def with_normalized_team_simps)
  have cands: "cands = same_team_players ru (team_of p')"
    by (simp add: assms(4) ru_def p'_simps)
  show "\<forall>c \<in> set cands.
            (\<forall>c' \<in> set cands. get_name_similarity (name_col p) (name_col c')
                                  \<le> get_name_similarity (name_col p) (name_col c))
            \<and> get_name_similarity (name_col p) (name_col c) = t \<and> 0 < t
            \<longrightarrow> (\<exists>ms. map_players mm fpl us t = Inr ms
                  \<and> (\<exists>m \<in> set ms. matching_type m = Automated \<and> fpl_id m = id_col p
                        \<and> fpl_name m = name_col p \<and> similarity m = t
                        \<and> (\<exists>u \<in> set cands. understat_id m = id_col u
                              \<and> understat_name m = name_col u
                              \<and> get_name_similarity (name_col p) (name_col u) = t)))"
  proof (intro ballI impI)
    fix c
    assume c: "c \<in> set cands"
      and h: "(\<forall>c' \<in> set cands. get_name_similarity (name_col p) (name_col c')
                                  \<le> get_name_similarity (name_col p) (name_col c))
            \<and> get_name_similarity (name_col p) (name_col c) = t \<and> 0 < t"
    have "\<exists>u \<in> set (same_team_players ru (team_of p')).
        get_name_similarity (name_col p') (name_col u) = get_name_similarity (name_col p') (name_col c)
        \<and> match_one p' ru t =
          [\<lparr>fpl_id = id_col p', understat_id = id_col u, fpl_name = name_col p',
            understat_name = name_col u, matching_type = Automated,
            similarity = get_name_similarity (name_col p') (name_col c)\<rparr>]"
    proof (rule match_one_emits)
      from h have h1: "\<forall>c' \<in> set cands. get_name_similarity (name_col p) (name_col c')
                                  \<le> get_name_similarity (name_col p) (name_col c)"
        and h2: "get_name_similarity (name_col p) (name_col c) = t" and h3: "0 < t"
        by blast+
      show "c \<in> set (same_team_players ru (team_of p'))" using c cands by simp
      show "\<forall>c' \<in> set (same_team_players ru (team_of p')).
          get_name_similarity (name_col p') (name_col c')
            \<le> get_name_similarity (name_col p') (name_col c)"
        using h1 unfolding cands p'_simps(2) .
      show "0 < get_name_similarity (name_col p') (name_col c)"
        unfolding p'_simps(2) h2 by (rule h3)
      show "t \<le> get_name_similarity (name_col p') (name_col c)"
        unfolding p'_simps(2) h2 by simp
    qed
    then obtain u where u: "u \<in> set cands"
      "get_name_similarity (name_col p) (name_col u) = t"
      and one: "match_one p' ru t =
          [\<lparr>fpl_id = id_col p, understat_id = id_col u, fpl_name = name_col p,
            understat_name = name_col u, matching_type = Automated, similarity = t\<rparr>]"
      using h cands p'_simps by auto
    define m where "m = \<lparr>fpl_id = id_col p, understat_id = id_col u, fpl_name = name_col p,
            understat_name = name_col u, matching_type = Automated, similarity = t\<rparr>"
    have "m \<in> set (match_one p' ru t)" unfolding one m_def by simp
    then have m_in: "m \<in> set (automated_pass (remaining_fpl ks fpl) ru t)"
      unfolding automated_pass_entry using p'_in by blast
    obtain man where man: "manual_pass mm fpl us = Inr man"
      using int_keys_manual_pass[OF assms(1)] by blast
    have "c \<in> set ru" using c cands by (simp add: same_team_players_def)
    then have "us \<noteq> []" unfolding ru_def set_remaining_understat by auto
    moreover have "fpl \<noteq> []" using assms(2) by auto
    ultimately have run: "map_players mm fpl us t
        = Inr (man @ automated_pass (remaining_fpl ks fpl) ru t)"
      using man assms(1) m_in by (auto simp: map_players_def ru_def Let_def)
    have "m \<in> set (man @ automated_pass (remaining_fpl ks fpl) ru t)" using m_in by simp
    moreover have "matching_type m = Automated \<and> fpl_id m = id_col p
        \<and> fpl_name m = name_col p \<and> similarity m = t
        \<and> (\<exists>u \<in> set cands. understat_id m = id_col u \<and> understat_name m = name_col u
              \<and> get_name_similarity (name_col p) (name_col u) = t)"
      using u by (auto simp: m_def)
    ultimately show "\<exists>ms. map_players mm fpl us t = Inr ms
                  \<and> (\<exists>m \<in> set ms. matching_type m = Automated \<and> fpl_id m = id_col p
                        \<and> fpl_name m = name_col p \<and> similarity m = t
                        \<and> (\<exists>u \<in> set cands. understat_id m = id_col u
                              \<and> understat_name m = name_col u
                              \<and> get_name_similarity (name_col p) (name_col u) = t))"
      using run by blast
  qed
next
  define p' where "p' = with_normalized_team p"
  define ru where "ru = remaining_understat mm us"
  have p'_simps: "id_col p' = id_col p" "name_col p' = name_col p"
    "team_of p' = normalize_team_name (team_col p)"
    by (simp_all add: p'_def with_normalized_team_simps)
  have cands: "cands = same_team_players ru (team_of p')"
    by (simp add: assms(4) ru_def p'_simps)
  show "(\<forall>c \<in> set cands. get_name_similarity (name_col p) (name_col c) < t
                          \<or> get_name_similarity (name_col p) (name_col c) = 0)
         \<longrightarrow> (\<forall>ms. map_players mm fpl us t = Inr ms
               \<longrightarrow> (\<forall>m \<in> set ms. matching_type m = Automated \<longrightarrow>
                       \<not> (fpl_name m = name_col p
                          \<and> (\<exists>u \<in> set cands. understat_name m = name_col u)))
                   \<and> (distinct (map id_col fpl) \<longrightarrow>
                        id_col p \<notin> fpl_id ` set ms
                        \<and> p \<in> set (export_missing_mappings fpl ms)))"
  proof (intro impI allI)
    fix ms
    assume h: "\<forall>c \<in> set cands. get_name_similarity (name_col p) (name_col c) < t
                          \<or> get_name_similarity (name_col p) (name_col c) = 0"
      and run: "map_players mm fpl us t = Inr ms"
    have pairs: "\<forall>m \<in> set ms. matching_type m = Automated \<longrightarrow>
                       \<not> (fpl_name m = name_col p
                          \<and> (\<exists>u \<in> set cands. understat_name m = name_col u))"
    proof (intro ballI impI notI)
      fix m
      assume m: "m \<in> set ms" "matching_type m = Automated"
        and e: "fpl_name m = name_col p \<and> (\<exists>u \<in> set cands. understat_name m = name_col u)"
      then obtain u where u: "u \<in> set cands" "understat_name m = name_col u" by blast
      from automated_entry_similarity[OF run m] e u(2)
      have s: "0 < get_name_similarity (name_col p) (name_col u)"
        "t \<le> get_name_similarity (name_col p) (name_col u)"
        by auto
      from h u(1) have "get_name_similarity (name_col p) (name_col u) < t
          \<or> get_name_similarity (name_col p) (name_col u) = 0"
        by blast
      then show False using s by auto
    qed
    have none: "match_one p' ru t = []"
    proof (rule match_one_none_or_zero)
      show "\<forall>c \<in> set (same_team_players ru (team_of p')).
          get_name_similarity (name_col p') (name_col c) < t
          \<or> get_name_similarity (name_col p') (name_col c) = 0"
        using h unfolding cands p'_simps(2) .
    qed
    have unmatched: "id_col p \<notin> fpl_id ` set ms \<and> p \<in> set (export_missing_mappings fpl ms)"
      if d: "distinct (map id_col fpl)"
    proof -
      have no: "fpl_id m \<noteq> id_col p" if m: "m \<in> set ms" for m
      proof -
        from map_players_Inr[OF run] m
        obtain man ks' where man: "manual_pass mm fpl us = Inr man"
          and ks': "int_keys mm = Inr ks'"
          and ms: "ms = man @ automated_pass (remaining_fpl ks' fpl) (remaining_understat mm us) t"
          by auto
        have kk: "ks' = ks" using ks' assms(1) by simp
        show ?thesis
        proof (cases "m \<in> set man")
          case True
          then have "fpl_id m \<in> set ks" using manual_pass_ids[OF man ks'] kk by simp
          then show ?thesis using assms(3) by auto
        next
          case False
          then have "m \<in> set (automated_pass (remaining_fpl ks fpl) ru t)"
            using m ms kk by (simp add: ru_def)
          then obtain q' where q': "q' \<in> set (remaining_fpl ks fpl)"
            and mq: "m \<in> set (match_one q' ru t)"
            by (auto simp: automated_pass_entry)
          from q' obtain q where q: "q \<in> set fpl" "q' = with_normalized_team q"
            unfolding set_remaining_fpl by blast
          show ?thesis
          proof
            assume "fpl_id m = id_col p"
            then have "id_col q = id_col p"
              using match_one_ids[OF mq] q by (simp add: with_normalized_team_simps)
            then have "q = p" using distinct_id_row[of fpl q p] d q(1) assms(2) by simp
            then show False using mq none q(2) by (simp add: p'_def)
          qed
        qed
      qed
      then have a: "id_col p \<notin> fpl_id ` set ms" by force
      moreover have "p \<in> set (export_missing_mappings fpl ms)"
        using assms(2) a by (auto simp: export_missing_mappings_def)
      ultimately show ?thesis by simp
    qed
    show "(\<forall>m \<in> set ms. matching_type m = Automated \<longrightarrow>
                       \<not> (fpl_name m = name_col p
                          \<and> (\<exists>u \<in> set cands. understat_name m = name_col u)))
                   \<and> (distinct (map id_col fpl) \<longrightarrow>
                        id_col p \<notin> fpl_id ` set ms
                        \<and> p \<in> set (export_missing_mappings fpl ms))"
      using pairs unmatched by blast
  qed
next
  show "\<forall>ms. map_players mm fpl us t = Inr ms
           \<longrightarrow> (\<forall>m \<in> set ms. matching_type m = Automated \<longrightarrow>
                   0 < similarity m \<and> t \<le> similarity m
                   \<and> similarity m = get_name_similarity (fpl_name m) (understat_name m))"
    using automated_entry_similarity by blast
qed

text \<open>\<^verbatim>\<open>Ramsey\<close> and \<^verbatim>\<open>Rams\<close> share 4 of 10 characters: the similarity is the double
  \<^verbatim>\<open>0.8\<close>, which is the default threshold, and the pair is emitted. \<^verbatim>\<open>Xhaka\<close> is
  below the threshold and stays unmatched. At threshold 0, \<^verbatim>\<open>Tony\<close> has the single
  candidate \<^verbatim>\<open>Rams\<close> of similarity 0 and stays unmatched as well.\<close>

lemma ramsey_run:
  "map_players [] ramsey_fpl ramsey_understat default_threshold = Inr ramsey_result"
  by code_simp

lemma ramsey_candidates:
  "same_team_players (remaining_understat [] ramsey_understat)
      (normalize_team_name (team_col (ramsey_fpl ! 0)))
     = [with_normalized_team (ramsey_understat ! 0)]"
  "same_team_players (remaining_understat [] ramsey_understat)
      (normalize_team_name (team_col (ramsey_fpl ! 1)))
     = [with_normalized_team (ramsey_understat ! 0)]"
  by code_simp+

lemma ramsey_similarity:
  "get_name_similarity (name_col (ramsey_fpl ! 0))
      (name_col (with_normalized_team (ramsey_understat ! 0))) = default_threshold"
  "get_name_similarity (name_col (ramsey_fpl ! 1))
      (name_col (with_normalized_team (ramsey_understat ! 0))) < default_threshold"
  "0 < default_threshold"
  by code_simp+


lemma tony_run: "map_players [] tony_fpl ramsey_understat 0 = Inr tony_result"
  by code_simp

lemma tony_candidates:
  "same_team_players (remaining_understat [] ramsey_understat)
      (normalize_team_name (team_col (tony_fpl ! 1)))
     = [with_normalized_team (ramsey_understat ! 0)]"
  by code_simp

lemma tony_similarity:
  "get_name_similarity (name_col (tony_fpl ! 1))
      (name_col (with_normalized_team (ramsey_understat ! 0))) = 0"
  by code_simp

theorem threshold_boundary_witness:
  "int_keys [] = Inr []
   \<and> get_name_similarity (name_col (ramsey_fpl ! 0))
        (name_col (with_normalized_team (ramsey_understat ! 0))) = default_threshold
   \<and> 0 < default_threshold
   \<and> (\<exists>ms. map_players [] ramsey_fpl ramsey_understat default_threshold = Inr ms
         \<and> (\<exists>m \<in> set ms. matching_type m = Automated \<and> fpl_id m = id_col (ramsey_fpl ! 0)
               \<and> similarity m = default_threshold))
   \<and> get_name_similarity (name_col (ramsey_fpl ! 1))
        (name_col (with_normalized_team (ramsey_understat ! 0))) < default_threshold
   \<and> distinct (map id_col ramsey_fpl)
   \<and> map_players [] ramsey_fpl ramsey_understat default_threshold = Inr ramsey_result
   \<and> id_col (ramsey_fpl ! 1) \<notin> fpl_id ` set ramsey_result
   \<and> ramsey_fpl ! 1 \<in> set (export_missing_mappings ramsey_fpl ramsey_result)
   \<and> ramsey_result ! 0 \<in> set ramsey_result \<and> matching_type (ramsey_result ! 0) = Automated
   \<and> 0 < similarity (ramsey_result ! 0) \<and> default_threshold \<le> similarity (ramsey_result ! 0)
   \<and> get_name_similarity (name_col (tony_fpl ! 1))
        (name_col (with_normalized_team (ramsey_understat ! 0))) = 0
   \<and> distinct (map id_col tony_fpl)
   \<and> map_players [] tony_fpl ramsey_understat 0 = Inr tony_result
   \<and> id_col (tony_fpl ! 1) \<notin> fpl_id ` set tony_result
   \<and> tony_fpl ! 1 \<in> set (export_missing_mappings tony_fpl tony_result)"
proof -
  have k: "int_keys [] = Inr []" by simp
  have p0: "ramsey_fpl ! 0 \<in> set ramsey_fpl" "id_col (ramsey_fpl ! 0) \<notin> set []"
    and p1: "ramsey_fpl ! 1 \<in> set ramsey_fpl" "id_col (ramsey_fpl ! 1) \<notin> set []"
    by (simp_all add: ramsey_fpl_def)
  have q1: "tony_fpl ! 1 \<in> set tony_fpl" "id_col (tony_fpl ! 1) \<notin> set []"
    by (simp_all add: tony_fpl_def)
  have d: "distinct (map id_col ramsey_fpl)" "distinct (map id_col tony_fpl)"
    by (simp_all add: ramsey_fpl_def tony_fpl_def mk_row_def)
  have m: "ramsey_result ! 0 \<in> set ramsey_result" "matching_type (ramsey_result ! 0) = Automated"
    by (simp_all add: ramsey_result_def)
  note r0 = threshold_boundary[OF k p0 ramsey_candidates(1)[symmetric], of default_threshold]
  note r1 = threshold_boundary[OF k p1 ramsey_candidates(2)[symmetric], of default_threshold]
  note t1 = threshold_boundary[OF k q1 tony_candidates[symmetric], of 0]
  from r0 ramsey_similarity(1,3)
  have a: "\<exists>ms. map_players [] ramsey_fpl ramsey_understat default_threshold = Inr ms
         \<and> (\<exists>m \<in> set ms. matching_type m = Automated \<and> fpl_id m = id_col (ramsey_fpl ! 0)
               \<and> similarity m = default_threshold)"
    by auto
  from r1 ramsey_similarity(2) d(1) ramsey_run
  have b: "id_col (ramsey_fpl ! 1) \<notin> fpl_id ` set ramsey_result
      \<and> ramsey_fpl ! 1 \<in> set (export_missing_mappings ramsey_fpl ramsey_result)"
    by auto
  from r0 ramsey_run m
  have c: "0 < similarity (ramsey_result ! 0) \<and> default_threshold \<le> similarity (ramsey_result ! 0)"
    by blast
  from t1 tony_similarity d(2) tony_run
  have e: "id_col (tony_fpl ! 1) \<notin> fpl_id ` set tony_result
      \<and> tony_fpl ! 1 \<in> set (export_missing_mappings tony_fpl tony_result)"
    by auto
  show ?thesis using k ramsey_similarity tony_similarity a b c d e m ramsey_run tony_run by simp
qed

text \<open>
  Claim C3, as stated, fails at threshold 0: \<^verbatim>\<open>Tony\<close> and \<^verbatim>\<open>Rams\<close> are on the same
  team and have no character in common, so their similarity is 0, exactly the threshold,
  and \<^verbatim>\<open>Rams\<close> is the only candidate; yet no entry is emitted for \<^verbatim>\<open>Tony\<close>.
\<close>

theorem zero_similarity_at_zero_threshold:
  "same_team_players (remaining_understat [] ramsey_understat)
      (normalize_team_name (team_col (tony_fpl ! 1)))
     = [with_normalized_team (ramsey_understat ! 0)]
   \<and> get_name_similarity (name_col (tony_fpl ! 1))
        (name_col (with_normalized_team (ramsey_understat ! 0))) = 0
   \<and> map_players [] tony_fpl ramsey_understat 0 = Inr tony_result
   \<and> id_col (tony_fpl ! 1) \<notin> fpl_id ` set tony_result"
proof -
  have "id_col (tony_fpl ! 1) \<notin> fpl_id ` set tony_result"
    by (simp add: tony_fpl_def tony_result_def mk_row_def)
  then show ?thesis using tony_candidates tony_similarity tony_run by simp
qed


text \<open>
  Claim C9. The automated pass does not take a matched secondary row out of the pool: the
  two primary rows named Harry Kane, with distinct ids, both get an automated entry that
  carries \<^verbatim>\<open>u1\<close>, each at similarity 1.
\<close>

theorem secondary_matched_twice:
  "map_players [] spurs_fpl spurs_understat default_threshold = Inr kane_twice
   \<and> distinct (map id_col spurs_fpl) \<and> distinct (map id_col spurs_understat)
   \<and> matching_type (kane_twice ! 0) = Automated \<and> matching_type (kane_twice ! 1) = Automated
   \<and> fpl_id (kane_twice ! 0) \<noteq> fpl_id (kane_twice ! 1)
   \<and> understat_id (kane_twice ! 0) = understat_id (kane_twice ! 1)
   \<and> default_threshold \<le> similarity (kane_twice ! 0)
   \<and> default_threshold \<le> similarity (kane_twice ! 1)"
proof -
  have "default_threshold \<le> 1" by code_simp
  then show ?thesis using kane_twice_run
    by (simp add: kane_twice_def spurs_fpl_def spurs_understat_def mk_row_def)
qed

text \<open>
  Claim C1 says that \<^verbatim>\<open>map_players\<close> returns an empty table when both tables are
  non-empty and nothing matches. On the specification's own example it raises instead:
  \<^verbatim>\<open>Man City\<close> is not in the alias table and keeps its capitals, \<^verbatim>\<open>Manchester City\<close>
  becomes \<^verbatim>\<open>man city\<close>, so there is no candidate, the list of entries is empty and the
  logging call of lines 194-196 raises \<^verbatim>\<open>KeyError\<close>.
\<close>

theorem de_bruyne_raises:
  "de_bruyne_fpl \<noteq> [] \<and> de_bruyne_understat \<noteq> []
   \<and> normalize_team_name (team_col (de_bruyne_fpl ! 0)) = PStr ''Man City''
   \<and> normalize_team_name (team_col (de_bruyne_understat ! 0)) = PStr ''man city''
   \<and> automated_pass (remaining_fpl [] de_bruyne_fpl)
        (remaining_understat [] de_bruyne_understat) default_threshold = []
   \<and> map_players [] de_bruyne_fpl de_bruyne_understat default_threshold = Inl KeyError"
proof -
  have "automated_pass (remaining_fpl [] de_bruyne_fpl)
        (remaining_understat [] de_bruyne_understat) default_threshold = []"
    by code_simp
  moreover have "map_players [] de_bruyne_fpl de_bruyne_understat default_threshold = Inl KeyError"
    by code_simp
  moreover have "normalize_team_name (team_col (de_bruyne_fpl ! 0)) = PStr ''Man City''"
    "normalize_team_name (team_col (de_bruyne_understat ! 0)) = PStr ''man city''"
    by code_simp+
  ultimately show ?thesis by (simp add: de_bruyne_fpl_def de_bruyne_understat_def)
qed

end
